theory Spec2Isabelle
  imports Main "HOL-Library.Word"
begin

section \<open>Memory, nodes and blocks\<close>

text \<open>
  The queues of \<^verbatim>\<open>include/salticidae/queue.h\<close> are linked structures of heap cells.
  An address is a natural number, a pointer is an optional address (\<open>None\<close> is
  \<^verbatim>\<open>nullptr\<close>), and the memory is a function from addresses to cells. Cells are never
  freed before the destructor runs, so every address keeps its cell.

  \<^verbatim>\<open>struct Block: public FreeList::Node { T elem; std::atomic<Block *> next; }\<close>
  declares a member \<^verbatim>\<open>next\<close> of its own, which hides \<^verbatim>\<open>FreeList::Node::next\<close>: a cell
  holds both. \<open>Node_next\<close> is the member of the base class, the one the FreeList code
  reaches through a \<^verbatim>\<open>Node *\<close>; \<open>Block_next\<close> is the member of the derived class, the one
  the queue code reaches through a \<^verbatim>\<open>Block *\<close>. \<open>refcnt\<close> is a \<^verbatim>\<open>size_t\<close>, here of 64 bits.
\<close>

type_synonym addr = nat
type_synonym ptr = "addr option"

record 'a Block =
  Node_next :: ptr
  refcnt :: "64 word"
  elem :: 'a
  Block_next :: ptr

text \<open>
  The state of one queue: the memory with its allocator (\<open>fresh\<close> is the next address
  that \<^verbatim>\<open>new\<close> hands out), the FreeList member \<^verbatim>\<open>blks\<close> (its only field is \<^verbatim>\<open>top\<close>), and the
  two atomics \<^verbatim>\<open>head\<close> and \<^verbatim>\<open>tail\<close>. No statement of the source stores a null pointer into
  \<^verbatim>\<open>head\<close> or \<^verbatim>\<open>tail\<close>, so they are addresses.
\<close>

record 'a state =
  heap :: "addr \<Rightarrow> 'a Block"
  fresh :: addr
  blks_top :: ptr
  head :: addr
  tail :: addr

text \<open>
  \<^verbatim>\<open>new Block()\<close>: the constructor \<^verbatim>\<open>Node(): next(nullptr), refcnt(1)\<close> runs on the storage
  the allocator returns; \<^verbatim>\<open>Block\<close> has no constructor of its own, and the model leaves
  \<^verbatim>\<open>elem\<close> and \<^verbatim>\<open>Block::next\<close> as the storage held them. Running out of memory is not
  modelled.
\<close>

definition new_Block :: "'a state \<Rightarrow> addr \<times> 'a state" where
  "new_Block s =
     (fresh s,
      s\<lparr>heap := (heap s)(fresh s := (heap s (fresh s))\<lparr>Node_next := None, refcnt := 1\<rparr>),
        fresh := Suc (fresh s)\<rparr>)"

section \<open>FreeList\<close>

text \<open>
  The functions below run one call to its end with no other thread in between. A
  \<^verbatim>\<open>compare_exchange_weak\<close> is the comparison of the atomic with the expected value,
  followed by the store when they are equal; a failure with equal values (which the
  weak form allows) is not modelled. A loop of the source that may spin is a
  \<^theory_text>\<open>partial_function\<close>: \<open>None\<close> is a call that does not return.
\<close>

text \<open>The \<^verbatim>\<open>for (;;)\<close> of \<^verbatim>\<open>release_ref\<close>, lines 30 to 42.\<close>

partial_function (option) release_loop :: "addr \<Rightarrow> 'a state \<Rightarrow> 'a state option" where
  "release_loop u s =
     (let t = blks_top s;
          s1 = s\<lparr>heap := (heap s)(u := (heap s u)\<lparr>Node_next := t\<rparr>)\<rparr>
      in if blks_top s1 = t
         then Some (s1\<lparr>blks_top := Some u,
                       heap := (heap s1)(u := (heap s1 u)\<lparr>refcnt := 1\<rparr>)\<rparr>)
         else release_loop u s1)"

definition release_ref :: "addr \<Rightarrow> 'a state \<Rightarrow> 'a state option" where
  "release_ref u s =
     (let old = refcnt (heap s u);
          s0 = s\<lparr>heap := (heap s)(u := (heap s u)\<lparr>refcnt := old - 1\<rparr>)\<rparr>
      in if old \<noteq> 1 then Some s0 else release_loop u s0)"

definition push :: "addr \<Rightarrow> 'a state \<Rightarrow> (bool \<times> 'a state) option" where
  "push u s = Option.bind (release_ref u s) (\<lambda>s'. Some (True, s'))"

text \<open>
  \<^verbatim>\<open>bool pop(Node *&r)\<close>: the result \<open>Some u\<close> is the return value \<^verbatim>\<open>true\<close> with \<^verbatim>\<open>r = u\<close>,
  the result \<open>None\<close> is the return value \<^verbatim>\<open>false\<close>, which leaves \<^verbatim>\<open>r\<close> as it was.
\<close>

partial_function (option) pop :: "'a state \<Rightarrow> (addr option \<times> 'a state) option" where
  "pop s =
     (case blks_top s of
        None \<Rightarrow> Some (None, s)
      | Some u \<Rightarrow>
          (let t = refcnt (heap s u) in
           if t = 0 then pop s
           else if refcnt (heap s u) = t
           then (let s1 = s\<lparr>heap := (heap s)(u := (heap s u)\<lparr>refcnt := t + 1\<rparr>)\<rparr>;
                     v = u;
                     nv = Node_next (heap s1 u)
                 in if blks_top s1 = Some v
                    then Option.bind (release_ref u (s1\<lparr>blks_top := nv\<rparr>))
                           (\<lambda>s2. Some (Some u, s2))
                    else Option.bind (release_ref u s1) pop)
           else pop s))"

section \<open>MPMCQueue\<close>

text \<open>
  \<^verbatim>\<open>_enqueue(Block *nblk, U &&e)\<close>, lines 99 to 104 (an Isabelle name cannot start with
  an underscore). All four accesses to \<^verbatim>\<open>next\<close> go through a \<^verbatim>\<open>Block *\<close>.
\<close>

definition enqueue_impl :: "addr \<Rightarrow> 'a \<Rightarrow> 'a state \<Rightarrow> 'a state" where
  "enqueue_impl nblk e s =
     (let s1 = s\<lparr>heap := (heap s)(nblk := (heap s nblk)\<lparr>elem := e\<rparr>)\<rparr>;
          s2 = s1\<lparr>heap := (heap s1)(nblk := (heap s1 nblk)\<lparr>Block_next := None\<rparr>)\<rparr>;
          prev = tail s2;
          s3 = s2\<lparr>tail := nblk\<rparr>
      in s3\<lparr>heap := (heap s3)(prev := (heap s3 prev)\<lparr>Block_next := Some nblk\<rparr>)\<rparr>)"

text \<open>
  The constructor \<^verbatim>\<open>MPMCQueue(size_t capacity)\<close> on raw memory \<open>mem\<close>: the members are
  initialised in the order \<^verbatim>\<open>blks\<close>, \<^verbatim>\<open>head\<close>, \<^verbatim>\<open>tail\<close>, then the body clears the dummy's
  \<^verbatim>\<open>next\<close> and pushes \<^verbatim>\<open>capacity\<close> new blocks. \<open>fill\<close> is the \<^verbatim>\<open>while (capacity--)\<close> loop.
  The destructor, which must not run together with any other call, is not modelled.
\<close>

primrec fill :: "nat \<Rightarrow> 'a state \<Rightarrow> 'a state option" where
  "fill 0 s = Some s"
| "fill (Suc capacity) s =
     (case new_Block s of (b, s1) \<Rightarrow>
        Option.bind (push b s1) (\<lambda>(_, s2). fill capacity s2))"

definition MPMCQueue :: "nat \<Rightarrow> (addr \<Rightarrow> 'a Block) \<Rightarrow> 'a state option" where
  "MPMCQueue capacity mem =
     (case new_Block \<lparr>heap = mem, fresh = 0, blks_top = None, head = 0, tail = 0\<rparr> of
        (d, s1) \<Rightarrow>
          (let s2 = s1\<lparr>head := d\<rparr>;
               s3 = s2\<lparr>tail := head s2\<rparr>;
               s4 = s3\<lparr>heap := (heap s3)(head s3 := (heap s3 (head s3))\<lparr>Block_next := None\<rparr>)\<rparr>
           in fill capacity s4))"

definition enqueue :: "'a \<Rightarrow> 'a state \<Rightarrow> (bool \<times> 'a state) option" where
  "enqueue e s =
     Option.bind (pop s) (\<lambda>(r, s1).
       case (case r of None \<Rightarrow> new_Block s1 | Some u \<Rightarrow> (u, s1)) of
         (nblk, s2) \<Rightarrow> Some (True, enqueue_impl nblk e s2))"

definition try_enqueue :: "'a \<Rightarrow> 'a state \<Rightarrow> (bool \<times> 'a state) option" where
  "try_enqueue e s =
     Option.bind (pop s) (\<lambda>(r, s1).
       case r of
         None \<Rightarrow> Some (False, s1)
       | Some nblk \<Rightarrow> Some (True, enqueue_impl nblk e s1))"

text \<open>
  \<^verbatim>\<open>bool try_dequeue(T &e)\<close>: the caller's variable \<open>e\<close> goes in and comes back with the
  return value. \<^verbatim>\<open>e = std::move(nh->elem)\<close> copies the payload; what the move leaves in
  the block is not modelled (the block keeps the value).
\<close>

partial_function (option) try_dequeue ::
  "'a \<Rightarrow> 'a state \<Rightarrow> (bool \<times> 'a \<times> 'a state) option" where
  "try_dequeue e s =
     (let h = head s;
          t = refcnt (heap s h)
      in if t = 0 then try_dequeue e s
         else if refcnt (heap s h) = t
         then (let s1 = s\<lparr>heap := (heap s)(h := (heap s h)\<lparr>refcnt := t + 1\<rparr>)\<rparr>
               in case Block_next (heap s1 h) of
                    None \<Rightarrow> Option.bind (release_ref h s1) (\<lambda>s2. Some (False, e, s2))
                  | Some nh \<Rightarrow>
                      (let e1 = elem (heap s1 nh);
                           hh = h
                       in if head s1 = hh
                          then Option.bind (release_ref h (s1\<lparr>head := nh\<rparr>)) (\<lambda>s2.
                                 Option.bind (push h s2) (\<lambda>(_, s3). Some (True, e1, s3)))
                          else Option.bind (release_ref h s1) (try_dequeue e1)))
         else try_dequeue e s)"

section \<open>MPSCQueue\<close>

definition MPSC_try_dequeue :: "'a \<Rightarrow> 'a state \<Rightarrow> (bool \<times> 'a \<times> 'a state) option" where
  "MPSC_try_dequeue e s =
     (let h = head s
      in case Block_next (heap s h) of
           None \<Rightarrow> Some (False, e, s)
         | Some nh \<Rightarrow>
             (let e1 = elem (heap s nh);
                  s1 = s\<lparr>head := nh\<rparr>
              in Option.bind (push h s1) (\<lambda>(_, s2). Some (True, e1, s2))))"

definition rewind :: "'a \<Rightarrow> 'a state \<Rightarrow> (bool \<times> 'a state) option" where
  "rewind e s =
     Option.bind (pop s) (\<lambda>(r, s1).
       case (case r of None \<Rightarrow> new_Block s1 | Some u \<Rightarrow> (u, s1)) of
         (nblk, s2) \<Rightarrow>
           (let h = head s2;
                s3 = s2\<lparr>heap := (heap s2)(h := (heap s2 h)\<lparr>elem := e\<rparr>)\<rparr>;
                s4 = s3\<lparr>heap := (heap s3)(nblk := (heap s3 nblk)\<lparr>Block_next := Some h\<rparr>)\<rparr>
            in Some (True, s4\<lparr>head := nblk\<rparr>)))"

section \<open>Call sequences of one thread\<close>

text \<open>
  A call of one of the public member functions, and a sequence of such calls made by one
  thread on one queue with one variable \<open>e\<close> for the results of \<^verbatim>\<open>try_dequeue\<close>. \<open>call\<close>
  gives the return value, the variable after the call and the new state; \<open>calls\<close> lists
  the return value and the variable after each call.
\<close>

datatype 'a invocation =
  Enqueue 'a | Try_enqueue 'a | Try_dequeue | MPSC_Try_dequeue | Rewind 'a

primrec call :: "'a invocation \<Rightarrow> 'a \<Rightarrow> 'a state \<Rightarrow> (bool \<times> 'a \<times> 'a state) option" where
  "call (Enqueue v) e s = Option.bind (enqueue v s) (\<lambda>(b, s'). Some (b, e, s'))"
| "call (Try_enqueue v) e s = Option.bind (try_enqueue v s) (\<lambda>(b, s'). Some (b, e, s'))"
| "call Try_dequeue e s = try_dequeue e s"
| "call MPSC_Try_dequeue e s = MPSC_try_dequeue e s"
| "call (Rewind v) e s = Option.bind (rewind v s) (\<lambda>(b, s'). Some (b, e, s'))"

primrec calls ::
  "'a invocation list \<Rightarrow> 'a \<Rightarrow> 'a state \<Rightarrow> ((bool \<times> 'a) list \<times> 'a \<times> 'a state) option" where
  "calls [] e s = Some ([], e, s)"
| "calls (c # cs) e s =
     Option.bind (call c e s) (\<lambda>(b, e1, s1).
       Option.bind (calls cs e1 s1) (\<lambda>(rs, e2, s2). Some ((b, e1) # rs, e2, s2)))"

text \<open>
  A scenario: construct a queue of the given capacity on the raw memory \<open>mem\<close>, make the
  calls, and list what they returned (\<open>run\<close>) or give the state they leave (\<open>final\<close>).
  \<open>mem0\<close> is a raw memory for the examples.
\<close>

definition run ::
  "nat \<Rightarrow> (addr \<Rightarrow> 'a Block) \<Rightarrow> 'a invocation list \<Rightarrow> 'a \<Rightarrow> (bool \<times> 'a) list option" where
  "run capacity mem cs e =
     Option.bind (MPMCQueue capacity mem) (\<lambda>s. map_option fst (calls cs e s))"

definition final ::
  "nat \<Rightarrow> (addr \<Rightarrow> 'a Block) \<Rightarrow> 'a invocation list \<Rightarrow> 'a \<Rightarrow> 'a state option" where
  "final capacity mem cs e =
     Option.bind (MPMCQueue capacity mem) (\<lambda>s. map_option (\<lambda>r. snd (snd r)) (calls cs e s))"

definition mem0 :: "addr \<Rightarrow> nat Block" where
  "mem0 = (\<lambda>_. \<lparr>Node_next = None, refcnt = 0, elem = 0, Block_next = None\<rparr>)"

text \<open>
  States for the examples: \<open>ex_fresh\<close> is the queue of capacity 0 just constructed on
  \<open>mem0\<close>; \<open>ex_two\<close> is that queue after \<^verbatim>\<open>enqueue(1)\<close>, \<^verbatim>\<open>enqueue(2)\<close>; \<open>ex_three\<close> is it after \<^verbatim>\<open>enqueue(10)\<close>, \<^verbatim>\<open>enqueue(20)\<close>, \<^verbatim>\<open>enqueue(30)\<close>;
  \<open>ex_recycled\<close> is it after \<^verbatim>\<open>enqueue(1)\<close> and one \<^verbatim>\<open>try_dequeue\<close>; \<open>ex_held\<close> is \<open>ex_fresh\<close>
  while an MPMC \<^verbatim>\<open>try_dequeue\<close> holds its reference on the head. \<open>next_links n s\<close> reads the
  two successor fields of the block at \<open>n\<close>.
\<close>

definition ex_fresh :: "nat state" where
  "ex_fresh =
     \<lparr>heap = mem0(0 := \<lparr>Node_next = None, refcnt = 1, elem = 0, Block_next = None\<rparr>),
      fresh = 1, blks_top = None, head = 0, tail = 0\<rparr>"

definition ex_three :: "nat state" where
  "ex_three =
     \<lparr>heap = mem0(0 := \<lparr>Node_next = None, refcnt = 1, elem = 0, Block_next = Some 1\<rparr>,
                  1 := \<lparr>Node_next = None, refcnt = 1, elem = 10, Block_next = Some 2\<rparr>,
                  2 := \<lparr>Node_next = None, refcnt = 1, elem = 20, Block_next = Some 3\<rparr>,
                  3 := \<lparr>Node_next = None, refcnt = 1, elem = 30, Block_next = None\<rparr>),
      fresh = 4, blks_top = None, head = 0, tail = 3\<rparr>"

definition ex_two :: "nat state" where
  "ex_two =
     \<lparr>heap = mem0(0 := \<lparr>Node_next = None, refcnt = 1, elem = 0, Block_next = Some 1\<rparr>,
                  1 := \<lparr>Node_next = None, refcnt = 1, elem = 1, Block_next = Some 2\<rparr>,
                  2 := \<lparr>Node_next = None, refcnt = 1, elem = 2, Block_next = None\<rparr>),
      fresh = 3, blks_top = None, head = 0, tail = 2\<rparr>"

definition ex_recycled :: "nat state" where
  "ex_recycled =
     \<lparr>heap = mem0(0 := \<lparr>Node_next = None, refcnt = 1, elem = 0, Block_next = Some 1\<rparr>,
                  1 := \<lparr>Node_next = None, refcnt = 1, elem = 1, Block_next = None\<rparr>),
      fresh = 2, blks_top = Some 0, head = 1, tail = 1\<rparr>"

definition ex_held :: "nat state" where
  "ex_held =
     \<lparr>heap = mem0(0 := \<lparr>Node_next = None, refcnt = 2, elem = 0, Block_next = None\<rparr>),
      fresh = 1, blks_top = None, head = 0, tail = 0\<rparr>"

definition next_links :: "addr \<Rightarrow> 'a state \<Rightarrow> ptr \<times> ptr" where
  "next_links n s = (Node_next (heap s n), Block_next (heap s n))"

section \<open>The shape of a quiescent queue\<close>

text \<open>
  \<open>links nxt p as\<close>: following the link \<open>nxt\<close> from the pointer \<open>p\<close> visits exactly the
  cells \<open>as\<close> and then reaches the null pointer.
\<close>

primrec links :: "(addr \<Rightarrow> ptr) \<Rightarrow> ptr \<Rightarrow> addr list \<Rightarrow> bool" where
  "links nxt p [] \<longleftrightarrow> p = None"
| "links nxt p (a # as) \<longleftrightarrow> p = Some a \<and> links nxt (nxt a) as"

text \<open>
  \<open>queue_inv s qs fs\<close>: between two calls, the blocks after the dummy \<open>head s\<close> are \<open>qs\<close>,
  linked through \<^verbatim>\<open>Block::next\<close> up to \<open>tail s\<close>; the pool holds \<open>fs\<close>, linked through
  \<^verbatim>\<open>Node::next\<close> from \<^verbatim>\<open>top\<close>; no block occurs twice; all of them are allocated and have
  reference count 1.
\<close>

definition queue_inv :: "'a state \<Rightarrow> addr list \<Rightarrow> addr list \<Rightarrow> bool" where
  "queue_inv s qs fs \<longleftrightarrow>
     links (\<lambda>a. Block_next (heap s a)) (Block_next (heap s (head s))) qs \<and>
     tail s = last (head s # qs) \<and>
     links (\<lambda>a. Node_next (heap s a)) (blks_top s) fs \<and>
     distinct (head s # qs @ fs) \<and>
     list_all (\<lambda>a. a < fresh s \<and> refcnt (heap s a) = 1) (head s # qs @ fs)"

definition payloads :: "'a state \<Rightarrow> addr list \<Rightarrow> 'a list" where
  "payloads s qs = map (\<lambda>a. elem (heap s a)) qs"

text \<open>
  The last four statements of \<^verbatim>\<open>rewind\<close> (lines 190 to 193), once the block \<open>n\<close> has been
  obtained.
\<close>

definition relink :: "addr \<Rightarrow> 'a \<Rightarrow> 'a state \<Rightarrow> 'a state" where
  "relink n w s =
     (let h = head s;
          s3 = s\<lparr>heap := (heap s)(h := (heap s h)\<lparr>elem := w\<rparr>)\<rparr>;
          s4 = s3\<lparr>heap := (heap s3)(n := (heap s3 n)\<lparr>Block_next := Some h\<rparr>)\<rparr>
      in s4\<lparr>head := n\<rparr>)"

section \<open>Atomic steps and interleavings\<close>

text \<open>
  The same code, one atomic access at a time, for threads that run interleaved on the
  shared state. The control state of a call is the statement it executes next together
  with its local variables; one step executes one statement that touches shared
  memory: an atomic load, store, exchange, \<^verbatim>\<open>fetch_sub\<close> or compare-and-exchange, the
  read or placement of a payload, or \<^verbatim>\<open>new Block()\<close>. An interleaving of such steps is
  a sequentially consistent execution; what the relaxed memory orders of the source
  allow beyond these is not modelled. As above, a compare-and-exchange fails only when
  the values differ.

  \<open>popper\<close> is the caller of \<^verbatim>\<open>pop\<close>, which decides where a call continues when \<^verbatim>\<open>pop\<close>
  returns: \<open>pop_failed\<close> after \<^verbatim>\<open>false\<close>, \<open>got_block\<close> once it holds a block. The states \<open>Rel_\<close>
  are \<^verbatim>\<open>release_ref(u)\<close> and carry the control state \<open>k\<close> to return to; \<open>Pop_\<close> is \<^verbatim>\<open>pop\<close>,
  \<open>Enq_\<close> is \<^verbatim>\<open>_enqueue\<close>, \<open>TD_\<close> the MPMC \<^verbatim>\<open>try_dequeue\<close>, \<open>MTD_\<close> the MPSC \<^verbatim>\<open>try_dequeue\<close>, \<open>Rw_\<close>
  the rest of \<^verbatim>\<open>rewind\<close>. \<open>Done b e\<close> is a call that has returned \<open>b\<close>, with the content \<open>e\<close>
  of the variable of a \<^verbatim>\<open>try_dequeue\<close>.
\<close>

datatype 'a popper = For_enqueue 'a | For_try_enqueue 'a | For_rewind 'a

datatype 'a pc =
    Done bool "'a option"
  | Rel_fetch_sub addr "'a pc"
  | Rel_load_top addr "'a pc"
  | Rel_store_next addr ptr "'a pc"
  | Rel_cas_top addr ptr "'a pc"
  | Rel_store_refcnt addr "'a pc"
  | Pop_load_top "'a popper"
  | Pop_load_refcnt "'a popper" addr
  | Pop_cas_refcnt "'a popper" addr "64 word"
  | Pop_load_next "'a popper" addr
  | Pop_cas_top "'a popper" addr ptr
  | New_Block "'a popper"
  | Enq_construct addr 'a
  | Enq_store_next addr
  | Enq_exchange addr
  | Enq_link addr addr
  | TD_load_head 'a
  | TD_load_refcnt 'a addr
  | TD_cas_refcnt 'a addr "64 word"
  | TD_load_next 'a addr
  | TD_read_elem 'a addr addr
  | TD_cas_head 'a addr addr
  | MTD_load_head 'a
  | MTD_load_next 'a addr
  | MTD_read_elem 'a addr addr
  | MTD_store_head 'a addr addr
  | Rw_load_head addr 'a
  | Rw_construct addr 'a addr
  | Rw_store_next addr addr
  | Rw_store_head addr

primrec pop_failed :: "'a popper \<Rightarrow> 'a pc" where
  "pop_failed (For_enqueue v) = New_Block (For_enqueue v)"
| "pop_failed (For_try_enqueue v) = Done False None"
| "pop_failed (For_rewind v) = New_Block (For_rewind v)"

primrec got_block :: "'a popper \<Rightarrow> addr \<Rightarrow> 'a pc" where
  "got_block (For_enqueue v) n = Enq_construct n v"
| "got_block (For_try_enqueue v) n = Enq_construct n v"
| "got_block (For_rewind v) n = Rw_load_head n v"

text \<open>
  The statement of \<^verbatim>\<open>queue.h\<close> that each control state is about to execute:
  \<^item> \<open>Rel_fetch_sub\<close> line 29, \<open>Rel_load_top\<close> 32, \<open>Rel_store_next\<close> 35, \<open>Rel_cas_top\<close> 37,
    \<open>Rel_store_refcnt\<close> 39;
  \<^item> \<open>Pop_load_top\<close> lines 54 and 56, \<open>Pop_load_refcnt\<close> 57 and 59, \<open>Pop_cas_refcnt\<close> 62,
    \<open>Pop_load_next\<close> 67, \<open>Pop_cas_top\<close> 68 (then \<^verbatim>\<open>release_ref(u)\<close> of line 78 and either the
    return or the next round of the loop);
  \<^item> \<open>New_Block\<close> the \<^verbatim>\<open>new Block()\<close> of lines 128 and 187; \<open>Enq_construct\<close> line 100,
    \<open>Enq_store_next\<close> 101, \<open>Enq_exchange\<close> 102, \<open>Enq_link\<close> 103;
  \<^item> \<open>TD_load_head\<close> line 144, \<open>TD_load_refcnt\<close> 145 and 146, \<open>TD_cas_refcnt\<close> 147,
    \<open>TD_load_next\<close> 149 to 154, \<open>TD_read_elem\<close> 155, \<open>TD_cas_head\<close> 157 (then lines 159 to
    161, or line 163 and the next round);
  \<^item> \<open>MTD_load_head\<close> line 175, \<open>MTD_load_next\<close> 176 and 177, \<open>MTD_read_elem\<close> 178,
    \<open>MTD_store_head\<close> 179 (then the \<^verbatim>\<open>push\<close> of line 180);
  \<^item> \<open>Rw_load_head\<close> line 190, \<open>Rw_construct\<close> 191, \<open>Rw_store_next\<close> 192, \<open>Rw_store_head\<close> 193.

  \<open>upd a f s\<close> changes the block at address \<open>a\<close> by \<open>f\<close>.
\<close>

definition upd :: "addr \<Rightarrow> ('a Block \<Rightarrow> 'a Block) \<Rightarrow> 'a state \<Rightarrow> 'a state" where
  "upd a f s = s\<lparr>heap := (heap s)(a := f (heap s a))\<rparr>"

fun step :: "'a pc \<Rightarrow> 'a state \<Rightarrow> 'a pc \<times> 'a state" where
  "step (Done b e) s = (Done b e, s)"
| "step (Rel_fetch_sub u k) s =
     (let old = refcnt (heap s u)
      in (if old \<noteq> 1 then k else Rel_load_top u k, upd u (refcnt_update (\<lambda>_. old - 1)) s))"
| "step (Rel_load_top u k) s = (Rel_store_next u (blks_top s) k, s)"
| "step (Rel_store_next u t k) s = (Rel_cas_top u t k, upd u (Node_next_update (\<lambda>_. t)) s)"
| "step (Rel_cas_top u t k) s =
     (if blks_top s = t then (Rel_store_refcnt u k, s\<lparr>blks_top := Some u\<rparr>)
      else (Rel_load_top u k, s))"
| "step (Rel_store_refcnt u k) s = (k, upd u (refcnt_update (\<lambda>_. 1)) s)"
| "step (Pop_load_top c) s =
     (case blks_top s of None \<Rightarrow> (pop_failed c, s) | Some u \<Rightarrow> (Pop_load_refcnt c u, s))"
| "step (Pop_load_refcnt c u) s =
     (let t = refcnt (heap s u)
      in if t = 0 then (Pop_load_top c, s) else (Pop_cas_refcnt c u t, s))"
| "step (Pop_cas_refcnt c u t) s =
     (if refcnt (heap s u) = t
      then (Pop_load_next c u, upd u (refcnt_update (\<lambda>_. t + 1)) s)
      else (Pop_load_top c, s))"
| "step (Pop_load_next c u) s = (Pop_cas_top c u (Node_next (heap s u)), s)"
| "step (Pop_cas_top c u nv) s =
     (if blks_top s = Some u
      then (Rel_fetch_sub u (got_block c u), s\<lparr>blks_top := nv\<rparr>)
      else (Rel_fetch_sub u (Pop_load_top c), s))"
| "step (New_Block c) s = (case new_Block s of (n, s') \<Rightarrow> (got_block c n, s'))"
| "step (Enq_construct nblk e) s = (Enq_store_next nblk, upd nblk (elem_update (\<lambda>_. e)) s)"
| "step (Enq_store_next nblk) s =
     (Enq_exchange nblk, upd nblk (Block_next_update (\<lambda>_. None)) s)"
| "step (Enq_exchange nblk) s = (Enq_link (tail s) nblk, s\<lparr>tail := nblk\<rparr>)"
| "step (Enq_link prev nblk) s =
     (Done True None, upd prev (Block_next_update (\<lambda>_. Some nblk)) s)"
| "step (TD_load_head e) s = (TD_load_refcnt e (head s), s)"
| "step (TD_load_refcnt e h) s =
     (let t = refcnt (heap s h)
      in if t = 0 then (TD_load_head e, s) else (TD_cas_refcnt e h t, s))"
| "step (TD_cas_refcnt e h t) s =
     (if refcnt (heap s h) = t
      then (TD_load_next e h, upd h (refcnt_update (\<lambda>_. t + 1)) s)
      else (TD_load_head e, s))"
| "step (TD_load_next e h) s =
     (case Block_next (heap s h) of
        None \<Rightarrow> (Rel_fetch_sub h (Done False (Some e)), s)
      | Some nh \<Rightarrow> (TD_read_elem e h nh, s))"
| "step (TD_read_elem e h nh) s = (TD_cas_head (elem (heap s nh)) h nh, s)"
| "step (TD_cas_head e h nh) s =
     (if head s = h
      then (Rel_fetch_sub h (Rel_fetch_sub h (Done True (Some e))), s\<lparr>head := nh\<rparr>)
      else (Rel_fetch_sub h (TD_load_head e), s))"
| "step (MTD_load_head e) s = (MTD_load_next e (head s), s)"
| "step (MTD_load_next e h) s =
     (case Block_next (heap s h) of
        None \<Rightarrow> (Done False (Some e), s)
      | Some nh \<Rightarrow> (MTD_read_elem e h nh, s))"
| "step (MTD_read_elem e h nh) s = (MTD_store_head (elem (heap s nh)) h nh, s)"
| "step (MTD_store_head e h nh) s = (Rel_fetch_sub h (Done True (Some e)), s\<lparr>head := nh\<rparr>)"
| "step (Rw_load_head nblk e) s = (Rw_construct nblk e (head s), s)"
| "step (Rw_construct nblk e h) s = (Rw_store_next nblk h, upd h (elem_update (\<lambda>_. e)) s)"
| "step (Rw_store_next nblk h) s =
     (Rw_store_head nblk, upd nblk (Block_next_update (\<lambda>_. Some h)) s)"
| "step (Rw_store_head nblk) s = (Done True None, s\<lparr>head := nblk\<rparr>)"

primrec start :: "'a invocation \<Rightarrow> 'a \<Rightarrow> 'a pc" where
  "start (Enqueue v) e = Pop_load_top (For_enqueue v)"
| "start (Try_enqueue v) e = Pop_load_top (For_try_enqueue v)"
| "start Try_dequeue e = TD_load_head e"
| "start MPSC_Try_dequeue e = MTD_load_head e"
| "start (Rewind v) e = Pop_load_top (For_rewind v)"

text \<open>
  A configuration is the list of the calls in progress (a thread is its index) and the
  shared state. \<open>fire i\<close> lets call \<open>i\<close> take one step; \<open>exec\<close> runs a schedule, a list of
  pairs \<open>(i, n)\<close>: call \<open>i\<close> takes \<open>n\<close> steps. \<open>solo n p s\<close> is \<open>n\<close> steps of one call alone.
\<close>

type_synonym 'a config = "'a pc list \<times> 'a state"

definition fire :: "nat \<Rightarrow> 'a config \<Rightarrow> 'a config" where
  "fire i c =
     (case c of (ts, s) \<Rightarrow>
        if i < length ts
        then (case step (ts ! i) s of (p, s') \<Rightarrow> (ts[i := p], s'))
        else (ts, s))"

primrec exec :: "(nat \<times> nat) list \<Rightarrow> 'a config \<Rightarrow> 'a config" where
  "exec [] c = c"
| "exec (b # bs) c = exec bs ((fire (fst b) ^^ snd b) c)"

text \<open>
  \<open>trace\<close> lists the shared state after every single step of a schedule; \<open>head_next\<close> is
  \<^verbatim>\<open>head->next\<close>, the pointer by which \<^verbatim>\<open>try_dequeue\<close> decides whether the queue is empty.
\<close>

primrec trace1 :: "nat \<Rightarrow> nat \<Rightarrow> 'a config \<Rightarrow> 'a state list" where
  "trace1 i 0 c = []"
| "trace1 i (Suc n) c = snd (fire i c) # trace1 i n (fire i c)"

primrec trace :: "(nat \<times> nat) list \<Rightarrow> 'a config \<Rightarrow> 'a state list" where
  "trace [] c = []"
| "trace (b # bs) c = trace1 (fst b) (snd b) c @ trace bs ((fire (fst b) ^^ snd b) c)"

definition head_next :: "'a state \<Rightarrow> ptr" where
  "head_next s = Block_next (heap s (head s))"

definition solo :: "nat \<Rightarrow> 'a pc \<Rightarrow> 'a state \<Rightarrow> 'a pc \<times> 'a state" where
  "solo n p s = ((\<lambda>c. step (fst c) (snd c)) ^^ n) (p, s)"




text \<open>
  \<open>guarded p\<close>: a control state that waits at the compare-and-exchange of a reference
  count holds an expected value that is not zero. The load before it establishes this
  (\<^verbatim>\<open>if (!t) continue\<close>), and every step keeps it.
\<close>

primrec guarded :: "'a pc \<Rightarrow> bool" where
  "guarded (Done b e) = True"
| "guarded (Rel_fetch_sub u k) = guarded k"
| "guarded (Rel_load_top u k) = guarded k"
| "guarded (Rel_store_next u t k) = guarded k"
| "guarded (Rel_cas_top u t k) = guarded k"
| "guarded (Rel_store_refcnt u k) = guarded k"
| "guarded (Pop_load_top c) = True"
| "guarded (Pop_load_refcnt c u) = True"
| "guarded (Pop_cas_refcnt c u t) = (t \<noteq> 0)"
| "guarded (Pop_load_next c u) = True"
| "guarded (Pop_cas_top c u nv) = True"
| "guarded (New_Block c) = True"
| "guarded (Enq_construct nblk e) = True"
| "guarded (Enq_store_next nblk) = True"
| "guarded (Enq_exchange nblk) = True"
| "guarded (Enq_link prev nblk) = True"
| "guarded (TD_load_head e) = True"
| "guarded (TD_load_refcnt e h) = True"
| "guarded (TD_cas_refcnt e h t) = (t \<noteq> 0)"
| "guarded (TD_load_next e h) = True"
| "guarded (TD_read_elem e h nh) = True"
| "guarded (TD_cas_head e h nh) = True"
| "guarded (MTD_load_head e) = True"
| "guarded (MTD_load_next e h) = True"
| "guarded (MTD_read_elem e h nh) = True"
| "guarded (MTD_store_head e h nh) = True"
| "guarded (Rw_load_head nblk e) = True"
| "guarded (Rw_construct nblk e h) = True"
| "guarded (Rw_store_next nblk h) = True"
| "guarded (Rw_store_head nblk) = True"



definition aba_schedule :: "(nat \<times> nat) list" where
  "aba_schedule = [(0, 6), (1, 1), (2, 12), (1, 4), (3, 10), (4, 12), (1, 7)]"

definition aba_calls :: "nat pc list" where
  "aba_calls = [start (Enqueue 1) 0, start Try_dequeue 0, start Try_dequeue 0,
                start (Enqueue 2) 0, start Try_dequeue 0]"

definition underflow_schedule :: "(nat \<times> nat) list" where
  "underflow_schedule =
     aba_schedule @ [(5, 10), (6, 12), (7, 3), (8, 3), (7, 3), (8, 3), (7, 1), (8, 1), (7, 1)]"

definition underflow_calls :: "nat pc list" where
  "underflow_calls = aba_calls @
     [start (Enqueue 3) 0, start Try_dequeue 0, start Try_dequeue 0, start Try_dequeue 0]"

text \<open>
  In \<open>stale_calls\<close>, on the queue \<open>ex_two\<close> that holds 1 and 2, calls 0 and 1 are
  \<^verbatim>\<open>try_dequeue\<close> and call 2 is \<^verbatim>\<open>enqueue(3)\<close>. \<open>stale_schedule\<close>: call 0 loads \<^verbatim>\<open>head\<close> (block 0)
  and pauses; call 1 runs to its end, delivers 1 and pushes block 0 to the pool; call 2
  runs to its end: it pops block 0, clears its \<^verbatim>\<open>Block::next\<close> and links it at the tail;
  call 0 resumes, takes its reference on block 0 and reads the \<^verbatim>\<open>Block::next\<close> of block 0.

  In \<open>delayed_push_calls\<close>, on the queue \<open>ex_fresh\<close>, calls 0 and 2 are \<^verbatim>\<open>try_dequeue\<close> and
  call 1 is \<^verbatim>\<open>enqueue(1)\<close>.
\<close>

definition stale_calls :: "nat pc list" where
  "stale_calls = [start Try_dequeue 0, start Try_dequeue 0, start (Enqueue 3) 0]"

definition stale_schedule :: "(nat \<times> nat) list" where
  "stale_schedule = [(0, 1), (1, 12), (2, 10), (0, 4)]"


section \<open>The FreeList operations in closed form\<close>

lemma release_loop_eq:
  "release_loop u s =
     Some (s\<lparr>blks_top := Some u,
             heap := (heap s)(u := (heap s u)\<lparr>Node_next := blks_top s, refcnt := 1\<rparr>)\<rparr>)"
  by (subst release_loop.simps) (simp add: Let_def)

lemma release_ref_eq:
  "release_ref u s =
     Some (if refcnt (heap s u) = 1
           then s\<lparr>blks_top := Some u,
                  heap := (heap s)(u := (heap s u)\<lparr>Node_next := blks_top s, refcnt := 1\<rparr>)\<rparr>
           else s\<lparr>heap := (heap s)(u := (heap s u)\<lparr>refcnt := refcnt (heap s u) - 1\<rparr>)\<rparr>)"
  by (simp add: release_ref_def release_loop_eq Let_def)

lemma pop_empty: "blks_top s = None \<Longrightarrow> pop s = Some (None, s)"
  by (subst pop.simps) simp

lemma pop_top:
  assumes "blks_top s = Some u" and "refcnt (heap s u) \<noteq> 0"
  shows "pop s = Some (Some u, s\<lparr>blks_top := Node_next (heap s u)\<rparr>)"
  using assms by (subst pop.simps) (simp add: Let_def release_ref_eq)

text \<open>What a call that returns has returned: by induction on the fixed point.\<close>

lemma pop_Some:
  assumes "pop s = Some r"
  shows "case blks_top s of
           None \<Rightarrow> r = (None, s)
         | Some u \<Rightarrow>
             refcnt (heap s u) \<noteq> 0 \<and> r = (Some u, s\<lparr>blks_top := Node_next (heap s u)\<rparr>)"
    (is "?P s r")
proof (rule pop.raw_induct[where P = ?P, OF _ assms])
  fix f :: "'a state \<Rightarrow> (addr option \<times> 'a state) option" and s r
  assume IH: "\<And>x y. f x = Some y \<Longrightarrow> ?P x y"
  assume eq: "(case blks_top s of
        None \<Rightarrow> Some (None, s)
      | Some u \<Rightarrow>
          (let t = refcnt (heap s u) in
           if t = 0 then f s
           else if refcnt (heap s u) = t
           then (let s1 = s\<lparr>heap := (heap s)(u := (heap s u)\<lparr>refcnt := t + 1\<rparr>)\<rparr>;
                     v = u;
                     nv = Node_next (heap s1 u)
                 in if blks_top s1 = Some v
                    then Option.bind (release_ref u (s1\<lparr>blks_top := nv\<rparr>))
                           (\<lambda>s2. Some (Some u, s2))
                    else Option.bind (release_ref u s1) f)
           else f s)) = Some r"
  show "?P s r"
  proof (cases "blks_top s")
    case None
    then show ?thesis using eq by simp
  next
    case (Some u)
    show ?thesis
    proof (cases "refcnt (heap s u) = 0")
      case True
      then have "f s = Some r" using eq Some by simp
      then show ?thesis by (rule IH)
    next
      case False
      then show ?thesis using eq Some by (auto simp: Let_def release_ref_eq)
    qed
  qed
qed

lemma try_dequeue_Some:
  assumes "try_dequeue e s = Some r"
  shows "refcnt (heap s (head s)) \<noteq> 0"
proof (rule try_dequeue.raw_induct[where P = "\<lambda>e s r. refcnt (heap s (head s)) \<noteq> 0", OF _ assms])
  fix f :: "'a \<Rightarrow> 'a state \<Rightarrow> (bool \<times> 'a \<times> 'a state) option" and e s r
  assume IH: "\<And>e s r. f e s = Some r \<Longrightarrow> refcnt (heap s (head s)) \<noteq> 0"
  assume eq: "(let h = head s;
          t = refcnt (heap s h)
      in if t = 0 then f e s
         else if refcnt (heap s h) = t
         then (let s1 = s\<lparr>heap := (heap s)(h := (heap s h)\<lparr>refcnt := t + 1\<rparr>)\<rparr>
               in case Block_next (heap s1 h) of
                    None \<Rightarrow> Option.bind (release_ref h s1) (\<lambda>s2. Some (False, e, s2))
                  | Some nh \<Rightarrow>
                      (let e1 = elem (heap s1 nh);
                           hh = h
                       in if head s1 = hh
                          then Option.bind (release_ref h (s1\<lparr>head := nh\<rparr>)) (\<lambda>s2.
                                 Option.bind (push h s2) (\<lambda>(_, s3). Some (True, e1, s3)))
                          else Option.bind (release_ref h s1) (f e1)))
         else f e s) = Some r"
  show "refcnt (heap s (head s)) \<noteq> 0"
  proof
    assume z: "refcnt (heap s (head s)) = 0"
    then have "f e s = Some r" using eq by (simp add: Let_def)
    from IH[OF this] z show False by simp
  qed
qed

section \<open>Preservation of the shape\<close>

lemma links_cong:
  "(\<And>a. a \<in> set as \<Longrightarrow> nxt' a = nxt a) \<Longrightarrow> links nxt' p as = links nxt p as"
  by (induction as arbitrary: p) auto

lemma links_snoc:
  assumes "links nxt (nxt h) qs" and "distinct (h # qs)" and "n \<notin> set (h # qs)"
    and "nxt' n = None" and "nxt' (last (h # qs)) = Some n"
    and "\<And>a. a \<in> set (h # qs) \<Longrightarrow> a \<noteq> last (h # qs) \<Longrightarrow> nxt' a = nxt a"
  shows "links nxt' (nxt' h) (qs @ [n])"
  using assms
proof (induction qs arbitrary: h)
  case Nil
  then show ?case by simp
next
  case (Cons q qs)
  have hq: "h \<noteq> last (q # qs)" using Cons.prems(2) by auto
  have "nxt' h = nxt h" using Cons.prems(6)[of h] hq by simp
  moreover have "nxt h = Some q" using Cons.prems(1) by simp
  moreover have "links nxt' (nxt' q) (qs @ [n])"
  proof (rule Cons.IH)
    show "links nxt (nxt q) qs" using Cons.prems(1) by simp
    show "distinct (q # qs)" using Cons.prems(2) by simp
    show "n \<notin> set (q # qs)" using Cons.prems(3) by simp
    show "nxt' n = None" by fact
    show "nxt' (last (q # qs)) = Some n" using Cons.prems(5) by simp
    show "\<And>a. a \<in> set (q # qs) \<Longrightarrow> a \<noteq> last (q # qs) \<Longrightarrow> nxt' a = nxt a"
      using Cons.prems(6) by simp
  qed
  ultimately show ?case by simp
qed

lemma enqueue_impl_inv:
  assumes inv: "queue_inv s qs fs" and n: "n \<notin> set (head s # qs @ fs)"
    and al: "n < fresh s" and rc: "refcnt (heap s n) = 1"
  shows "queue_inv (enqueue_impl n v s) (qs @ [n]) fs"
    and "payloads (enqueue_impl n v s) (qs @ [n]) = payloads s qs @ [v]"
proof -
  let ?s = "enqueue_impl n v s"
  let ?t = "last (head s # qs)"
  have tl: "tail s = ?t" using inv by (simp add: queue_inv_def)
  have tin: "?t \<in> set (head s # qs)" by (rule last_in_set) simp
  have nt: "n \<noteq> ?t" using n tin by auto
  have hp: "heap ?s = (heap s)(n := (heap s n)\<lparr>elem := v, Block_next := None\<rparr>,
       ?t := (heap s ?t)\<lparr>Block_next := Some n\<rparr>)"
    using nt tl by (simp add: enqueue_impl_def Let_def)
  have misc: "head ?s = head s" "tail ?s = n" "fresh ?s = fresh s" "blks_top ?s = blks_top s"
    by (simp_all add: enqueue_impl_def Let_def)
  have l1: "links (\<lambda>a. Block_next (heap ?s a)) (Block_next (heap ?s (head s))) (qs @ [n])"
  proof (rule links_snoc[where nxt = "\<lambda>a. Block_next (heap s a)"])
    show "links (\<lambda>a. Block_next (heap s a)) (Block_next (heap s (head s))) qs"
      using inv by (simp add: queue_inv_def)
    show "distinct (head s # qs)" using inv by (simp add: queue_inv_def)
    show "n \<notin> set (head s # qs)" using n by simp
    show "Block_next (heap ?s n) = None" using nt by (simp add: hp)
    show "Block_next (heap ?s ?t) = Some n" by (simp add: hp)
    show "\<And>a. a \<in> set (head s # qs) \<Longrightarrow> a \<noteq> ?t \<Longrightarrow>
        Block_next (heap ?s a) = Block_next (heap s a)"
      using n by (auto simp: hp)
  qed
  have l2: "links (\<lambda>a. Node_next (heap ?s a)) (blks_top s) fs"
  proof -
    have "links (\<lambda>a. Node_next (heap ?s a)) (blks_top s) fs
        = links (\<lambda>a. Node_next (heap s a)) (blks_top s) fs"
      by (rule links_cong) (simp add: hp)
    then show ?thesis using inv by (simp add: queue_inv_def)
  qed
  have rcs: "\<And>a. refcnt (heap ?s a) = refcnt (heap s a)" by (simp add: hp)
  show "queue_inv ?s (qs @ [n]) fs"
    using inv n al rc l1 l2 unfolding queue_inv_def misc
    by (auto simp: rcs list_all_iff)
  show "payloads ?s (qs @ [n]) = payloads s qs @ [v]"
    using n nt inv by (auto simp: payloads_def hp queue_inv_def)
qed


lemma pop_inv_Cons:
  assumes inv: "queue_inv s qs (f # fs)"
  shows "pop s = Some (Some f, s\<lparr>blks_top := Node_next (heap s f)\<rparr>)"
    and "queue_inv (s\<lparr>blks_top := Node_next (heap s f)\<rparr>) qs fs"
proof -
  have "blks_top s = Some f" "refcnt (heap s f) = 1"
    using inv by (simp_all add: queue_inv_def)
  then show "pop s = Some (Some f, s\<lparr>blks_top := Node_next (heap s f)\<rparr>)"
    by (simp add: pop_top)
  show "queue_inv (s\<lparr>blks_top := Node_next (heap s f)\<rparr>) qs fs"
    using inv by (simp add: queue_inv_def)
qed

lemma pop_inv_Nil:
  assumes inv: "queue_inv s qs []"
  shows "pop s = Some (None, s)"
  using inv by (simp add: queue_inv_def pop_empty)

lemma new_Block_inv:
  assumes inv: "queue_inv s qs fs"
  shows "queue_inv (snd (new_Block s)) qs fs"
    and "fst (new_Block s) = fresh s"
    and "fresh s \<notin> set (head (snd (new_Block s)) # qs @ fs)"
    and "fresh s < fresh (snd (new_Block s))"
    and "refcnt (heap (snd (new_Block s)) (fresh s)) = 1"
    and "payloads (snd (new_Block s)) qs = payloads s qs"
proof -
  let ?s = "snd (new_Block s)"
  have old: "\<And>a. a \<in> set (head s # qs @ fs) \<Longrightarrow> a < fresh s"
    using inv by (auto simp: queue_inv_def list_all_iff)
  then have same: "\<And>a. a \<in> set (head s # qs @ fs) \<Longrightarrow> heap ?s a = heap s a"
    by (auto simp: new_Block_def)
  have misc: "head ?s = head s" "tail ?s = tail s" "blks_top ?s = blks_top s"
    "fresh ?s = Suc (fresh s)"
    by (simp_all add: new_Block_def)
  have l1: "links (\<lambda>a. Block_next (heap ?s a)) (Block_next (heap s (head s))) qs
      = links (\<lambda>a. Block_next (heap s a)) (Block_next (heap s (head s))) qs"
    by (rule links_cong) (simp add: same)
  have l2: "links (\<lambda>a. Node_next (heap ?s a)) (blks_top s) fs
      = links (\<lambda>a. Node_next (heap s a)) (blks_top s) fs"
    by (rule links_cong) (simp add: same)
  have hd: "heap ?s (head s) = heap s (head s)" by (rule same) simp
  show "queue_inv ?s qs fs"
    using inv l1 l2 unfolding queue_inv_def misc hd
    by (auto simp: list_all_iff same less_Suc_eq)
  show "fst (new_Block s) = fresh s" by (simp add: new_Block_def)
  show "fresh s \<notin> set (head ?s # qs @ fs)" using old unfolding misc by blast
  show "fresh s < fresh ?s" by (simp add: misc)
  show "refcnt (heap ?s (fresh s)) = 1" by (simp add: new_Block_def)
  show "payloads ?s qs = payloads s qs" by (simp add: payloads_def same)
qed

lemma enqueue_inv:
  assumes inv: "queue_inv s qs fs"
  shows "\<exists>s' n. enqueue v s = Some (True, s') \<and> queue_inv s' (qs @ [n]) (tl fs) \<and>
           payloads s' (qs @ [n]) = payloads s qs @ [v]"
proof (cases fs)
  case Nil
  let ?s1 = "snd (new_Block s)"
  have i: "queue_inv s qs []" using inv Nil by simp
  have e: "enqueue v s = Some (True, enqueue_impl (fresh s) v ?s1)"
    using pop_inv_Nil[OF i] new_Block_inv(2)[OF i]
    by (auto simp: enqueue_def split: prod.splits)
  have "queue_inv (enqueue_impl (fresh s) v ?s1) (qs @ [fresh s]) []"
    by (rule enqueue_impl_inv(1)) (use new_Block_inv[OF i] in simp_all)
  moreover have "payloads (enqueue_impl (fresh s) v ?s1) (qs @ [fresh s]) = payloads s qs @ [v]"
    using enqueue_impl_inv(2)[of ?s1 qs "[]" "fresh s" v] new_Block_inv[OF i] by simp
  ultimately show ?thesis using e Nil by auto
next
  case (Cons f fs')
  let ?s1 = "s\<lparr>blks_top := Node_next (heap s f)\<rparr>"
  have i: "queue_inv s qs (f # fs')" using inv Cons by simp
  have i1: "queue_inv ?s1 qs fs'" by (rule pop_inv_Cons(2)[OF i])
  have f: "f \<notin> set (head ?s1 # qs @ fs')" "f < fresh ?s1" "refcnt (heap ?s1 f) = 1"
    using i by (auto simp: queue_inv_def)
  have e: "enqueue v s = Some (True, enqueue_impl f v ?s1)"
    using pop_inv_Cons(1)[OF i] by (simp add: enqueue_def)
  have "queue_inv (enqueue_impl f v ?s1) (qs @ [f]) fs'"
    by (rule enqueue_impl_inv(1)[OF i1 f])
  moreover have "payloads (enqueue_impl f v ?s1) (qs @ [f]) = payloads s qs @ [v]"
    using enqueue_impl_inv(2)[OF i1 f, of v] by (simp add: payloads_def)
  ultimately show ?thesis using e Cons by auto
qed


lemma try_dequeue_eq:
  assumes "refcnt (heap s (head s)) \<noteq> 0"
  shows "try_dequeue e s =
     Some (case Block_next (heap s (head s)) of
             None \<Rightarrow> (False, e, s)
           | Some nh \<Rightarrow>
               (True, elem (heap s nh),
                if refcnt (heap s (head s)) = 1
                then s\<lparr>head := nh, blks_top := Some (head s),
                       heap := (heap s)(head s := (heap s (head s))
                                 \<lparr>Node_next := blks_top s, refcnt := 1\<rparr>)\<rparr>
                else s\<lparr>head := nh,
                       heap := (heap s)(head s := (heap s (head s))
                                 \<lparr>refcnt := refcnt (heap s (head s)) - 1\<rparr>)\<rparr>))"
  using assms
  by (subst try_dequeue.simps)
     (simp add: Let_def release_ref_eq push_def split: option.split)

lemma MPSC_try_dequeue_eq:
  "MPSC_try_dequeue e s =
     Some (case Block_next (heap s (head s)) of
             None \<Rightarrow> (False, e, s)
           | Some nh \<Rightarrow>
               (True, elem (heap s nh),
                if refcnt (heap s (head s)) = 1
                then s\<lparr>head := nh, blks_top := Some (head s),
                       heap := (heap s)(head s := (heap s (head s))
                                 \<lparr>Node_next := blks_top s, refcnt := 1\<rparr>)\<rparr>
                else s\<lparr>head := nh,
                       heap := (heap s)(head s := (heap s (head s))
                                 \<lparr>refcnt := refcnt (heap s (head s)) - 1\<rparr>)\<rparr>))"
  by (simp add: MPSC_try_dequeue_def Let_def release_ref_eq push_def split: option.split)


lemma push_inv:
  assumes inv: "queue_inv s qs fs" and b: "b \<notin> set (head s # qs @ fs)"
    and al: "b < fresh s" and rc: "refcnt (heap s b) = 1"
  shows "\<exists>s'. push b s = Some (True, s') \<and> queue_inv s' qs (b # fs) \<and>
           payloads s' qs = payloads s qs \<and> head s' = head s \<and> fresh s' = fresh s"
proof -
  let ?s = "s\<lparr>blks_top := Some b,
              heap := (heap s)(b := (heap s b)\<lparr>Node_next := blks_top s, refcnt := 1\<rparr>)\<rparr>"
  have p: "push b s = Some (True, ?s)" using rc by (simp add: push_def release_ref_eq)
  have same: "\<And>a. a \<in> set (head s # qs @ fs) \<Longrightarrow> heap ?s a = heap s a"
    using b by auto
  have l1: "links (\<lambda>a. Block_next (heap ?s a)) (Block_next (heap s (head s))) qs
      = links (\<lambda>a. Block_next (heap s a)) (Block_next (heap s (head s))) qs"
    by (rule links_cong) (simp add: same)
  have l2: "links (\<lambda>a. Node_next (heap ?s a)) (blks_top s) fs
      = links (\<lambda>a. Node_next (heap s a)) (blks_top s) fs"
    by (rule links_cong) (use b in auto)
  have hd: "heap ?s (head s) = heap s (head s)" by (rule same) simp
  have "queue_inv ?s qs (b # fs)"
    using inv b al l1 l2 hd unfolding queue_inv_def
    by (auto simp: list_all_iff)
  moreover have "payloads ?s qs = payloads s qs"
    using b by (auto simp: payloads_def)
  ultimately show ?thesis using p by simp
qed

lemma advance_head_inv:
  assumes inv: "queue_inv s (q # qs) fs"
  shows "queue_inv (s\<lparr>head := q\<rparr>) qs fs"
    and "head s \<notin> set (head (s\<lparr>head := q\<rparr>) # qs @ fs)"
    and "head s < fresh (s\<lparr>head := q\<rparr>)"
    and "refcnt (heap (s\<lparr>head := q\<rparr>) (head s)) = 1"
    and "Block_next (heap s (head s)) = Some q"
  using inv by (auto simp: queue_inv_def)

lemma try_dequeue_inv_Cons:
  assumes inv: "queue_inv s (q # qs) fs"
  shows "\<exists>s'. try_dequeue e s = Some (True, elem (heap s q), s') \<and>
           queue_inv s' qs (head s # fs) \<and> payloads s' qs = payloads s qs"
proof -
  have rc: "refcnt (heap s (head s)) = 1" using inv by (simp add: queue_inv_def)
  obtain s' where p: "push (head s) (s\<lparr>head := q\<rparr>) = Some (True, s')"
    and i: "queue_inv s' qs (head s # fs)"
    and pl: "payloads s' qs = payloads (s\<lparr>head := q\<rparr>) qs"
    using push_inv[OF advance_head_inv(1-4)[OF inv]] by blast
  have "try_dequeue e s = Some (True, elem (heap s q), s')"
    using p rc advance_head_inv(5)[OF inv]
    by (simp add: try_dequeue_eq push_def release_ref_eq)
  then show ?thesis using i pl by (simp add: payloads_def)
qed

lemma try_dequeue_inv_Nil:
  assumes inv: "queue_inv s [] fs"
  shows "try_dequeue e s = Some (False, e, s)"
  using inv by (simp add: try_dequeue_eq queue_inv_def)

lemma MPSC_try_dequeue_inv_Cons:
  assumes inv: "queue_inv s (q # qs) fs"
  shows "\<exists>s'. MPSC_try_dequeue e s = Some (True, elem (heap s q), s') \<and>
           queue_inv s' qs (head s # fs) \<and> payloads s' qs = payloads s qs"
proof -
  have rc: "refcnt (heap s (head s)) = 1" using inv by (simp add: queue_inv_def)
  obtain s' where p: "push (head s) (s\<lparr>head := q\<rparr>) = Some (True, s')"
    and i: "queue_inv s' qs (head s # fs)"
    and pl: "payloads s' qs = payloads (s\<lparr>head := q\<rparr>) qs"
    using push_inv[OF advance_head_inv(1-4)[OF inv]] by blast
  have "MPSC_try_dequeue e s = Some (True, elem (heap s q), s')"
    using p rc advance_head_inv(5)[OF inv]
    by (simp add: MPSC_try_dequeue_eq push_def release_ref_eq)
  then show ?thesis using i pl by (simp add: payloads_def)
qed

lemma MPSC_try_dequeue_inv_Nil:
  assumes inv: "queue_inv s [] fs"
  shows "MPSC_try_dequeue e s = Some (False, e, s)"
  using inv by (simp add: MPSC_try_dequeue_eq queue_inv_def)


lemma relink_inv:
  assumes inv: "queue_inv s qs fs" and n: "n \<notin> set (head s # qs @ fs)"
    and al: "n < fresh s" and rc: "refcnt (heap s n) = 1"
  shows "queue_inv (relink n w s) (head s # qs) fs"
    and "payloads (relink n w s) (head s # qs) = w # payloads s qs"
proof -
  let ?s = "relink n w s"
  let ?h = "head s"
  have nh: "n \<noteq> ?h" using n by simp
  have hp: "heap ?s = (heap s)(?h := (heap s ?h)\<lparr>elem := w\<rparr>,
       n := (heap s n)\<lparr>Block_next := Some ?h\<rparr>)"
    using nh by (simp add: relink_def Let_def)
  have misc: "head ?s = n" "tail ?s = tail s" "fresh ?s = fresh s" "blks_top ?s = blks_top s"
    by (simp_all add: relink_def Let_def)
  have l1: "links (\<lambda>a. Block_next (heap ?s a)) (Block_next (heap s ?h)) qs
      = links (\<lambda>a. Block_next (heap s a)) (Block_next (heap s ?h)) qs"
    by (rule links_cong) (use n in \<open>auto simp: hp\<close>)
  have l2: "links (\<lambda>a. Node_next (heap ?s a)) (blks_top s) fs
      = links (\<lambda>a. Node_next (heap s a)) (blks_top s) fs"
    by (rule links_cong) (simp add: hp)
  have bn: "Block_next (heap ?s n) = Some ?h" "Block_next (heap ?s ?h) = Block_next (heap s ?h)"
    using nh by (simp_all add: hp)
  have rcs: "\<And>a. refcnt (heap ?s a) = refcnt (heap s a)" by (simp add: hp)
  show "queue_inv ?s (?h # qs) fs"
    using inv n al rc l1 l2 bn unfolding queue_inv_def misc
    by (auto simp: rcs list_all_iff)
  show "payloads ?s (?h # qs) = w # payloads s qs"
    using n nh inv by (auto simp: payloads_def hp queue_inv_def)
qed

lemma rewind_inv:
  assumes inv: "queue_inv s qs fs"
  shows "\<exists>s'. rewind w s = Some (True, s') \<and> queue_inv s' (head s # qs) (tl fs) \<and>
           payloads s' (head s # qs) = w # payloads s qs"
proof (cases fs)
  case Nil
  let ?s1 = "snd (new_Block s)"
  have i: "queue_inv s qs []" using inv Nil by simp
  have hd: "head ?s1 = head s" by (simp add: new_Block_def)
  have e: "rewind w s = Some (True, relink (fresh s) w ?s1)"
    using pop_inv_Nil[OF i] new_Block_inv(2)[OF i]
    by (auto simp: rewind_def relink_def Let_def split: prod.splits)
  have "queue_inv (relink (fresh s) w ?s1) (head ?s1 # qs) []"
    by (rule relink_inv(1)) (use new_Block_inv[OF i] in simp_all)
  moreover have "payloads (relink (fresh s) w ?s1) (head ?s1 # qs) = w # payloads s qs"
    using relink_inv(2)[of ?s1 qs "[]" "fresh s" w] new_Block_inv[OF i] by simp
  ultimately show ?thesis using e Nil hd by auto
next
  case (Cons f fs')
  let ?s1 = "s\<lparr>blks_top := Node_next (heap s f)\<rparr>"
  have i: "queue_inv s qs (f # fs')" using inv Cons by simp
  have i1: "queue_inv ?s1 qs fs'" by (rule pop_inv_Cons(2)[OF i])
  have f: "f \<notin> set (head ?s1 # qs @ fs')" "f < fresh ?s1" "refcnt (heap ?s1 f) = 1"
    using i by (auto simp: queue_inv_def)
  have e: "rewind w s = Some (True, relink f w ?s1)"
    using pop_inv_Cons(1)[OF i] by (simp add: rewind_def relink_def Let_def)
  have "queue_inv (relink f w ?s1) (head ?s1 # qs) fs'"
    by (rule relink_inv(1)[OF i1 f])
  moreover have "payloads (relink f w ?s1) (head ?s1 # qs) = w # payloads s qs"
    using relink_inv(2)[OF i1 f, of w] by (simp add: payloads_def)
  ultimately show ?thesis using e Cons by auto
qed

lemma rev_upt_step: "rev [Suc m..<Suc m + c] @ m # fs = rev [m..<m + Suc c] @ fs"
proof -
  have "[m..<m + Suc c] = m # [Suc m..<Suc m + c]"
    by (simp add: upt_conv_Cons del: upt_Suc)
  then show ?thesis by (simp del: upt_Suc)
qed

lemma fill_inv:
  assumes "queue_inv s qs fs"
  shows "\<exists>s'. fill capacity s = Some s' \<and>
           queue_inv s' qs (rev [fresh s..<fresh s + capacity] @ fs) \<and>
           payloads s' qs = payloads s qs \<and> head s' = head s"
  using assms
proof (induction capacity arbitrary: s fs)
  case 0
  then show ?case by simp
next
  case (Suc capacity)
  let ?s1 = "snd (new_Block s)"
  note nb = new_Block_inv[OF Suc.prems]
  have fr: "fresh ?s1 = Suc (fresh s)" "head ?s1 = head s" by (simp_all add: new_Block_def)
  obtain s2 where p: "push (fresh s) ?s1 = Some (True, s2)"
    and i2: "queue_inv s2 qs (fresh s # fs)"
    and pl2: "payloads s2 qs = payloads ?s1 qs"
    and m2: "head s2 = head ?s1" "fresh s2 = fresh ?s1"
    using push_inv[OF nb(1) nb(3) nb(4) nb(5)] by blast
  obtain s' where f: "fill capacity s2 = Some s'"
    and i': "queue_inv s' qs (rev [fresh s2..<fresh s2 + capacity] @ fresh s # fs)"
    and pl': "payloads s' qs = payloads s2 qs" and h': "head s' = head s2"
    using Suc.IH[OF i2] by blast
  have "fill (Suc capacity) s = Some s'"
    using p f nb(2) by (auto split: prod.splits)
  moreover have "rev [fresh s2..<fresh s2 + capacity] @ fresh s # fs
      = rev [fresh s..<fresh s + Suc capacity] @ fs"
    unfolding m2 fr by (rule rev_upt_step)
  moreover have "payloads s' qs = payloads s qs" "head s' = head s"
    using pl' pl2 nb(6) h' m2 fr by simp_all
  ultimately show ?case using i' by (simp only:) simp
qed

lemma MPMCQueue_inv:
  "\<exists>s. MPMCQueue capacity mem = Some s \<and> queue_inv s [] (rev [1..<Suc capacity]) \<and> head s = 0"
proof -
  let ?s4 = "\<lparr>heap = mem(0 := (mem 0)\<lparr>Node_next := None, refcnt := 1, Block_next := None\<rparr>),
             fresh = Suc 0, blks_top = None, head = 0, tail = 0\<rparr>"
  have c: "MPMCQueue capacity mem = fill capacity ?s4"
    by (simp add: MPMCQueue_def new_Block_def Let_def)
  have "queue_inv ?s4 [] []" by (simp add: queue_inv_def)
  from fill_inv[OF this, of capacity] c show ?thesis by auto
qed


lemma try_enqueue_inv:
  assumes inv: "queue_inv s qs fs"
  shows "\<exists>s'. try_enqueue v s = Some (fs \<noteq> [], s') \<and>
           (case fs of
              [] \<Rightarrow> s' = s
            | f # fs' \<Rightarrow> queue_inv s' (qs @ [f]) fs' \<and>
                payloads s' (qs @ [f]) = payloads s qs @ [v])"
proof (cases fs)
  case Nil
  then show ?thesis using pop_inv_Nil[of s qs] inv by (simp add: try_enqueue_def)
next
  case (Cons f fs')
  let ?s1 = "s\<lparr>blks_top := Node_next (heap s f)\<rparr>"
  have i: "queue_inv s qs (f # fs')" using inv Cons by simp
  have i1: "queue_inv ?s1 qs fs'" by (rule pop_inv_Cons(2)[OF i])
  have f: "f \<notin> set (head ?s1 # qs @ fs')" "f < fresh ?s1" "refcnt (heap ?s1 f) = 1"
    using i by (auto simp: queue_inv_def)
  have e: "try_enqueue v s = Some (True, enqueue_impl f v ?s1)"
    using pop_inv_Cons(1)[OF i] by (simp add: try_enqueue_def)
  have "queue_inv (enqueue_impl f v ?s1) (qs @ [f]) fs'"
    by (rule enqueue_impl_inv(1)[OF i1 f])
  moreover have "payloads (enqueue_impl f v ?s1) (qs @ [f]) = payloads s qs @ [v]"
    using enqueue_impl_inv(2)[OF i1 f, of v] by (simp add: payloads_def)
  ultimately show ?thesis using e Cons by simp
qed

section \<open>Call sequences\<close>

lemma payloads_simps:
  "payloads s [] = []" "payloads s (q # qs) = elem (heap s q) # payloads s qs"
  by (simp_all add: payloads_def)

lemma calls_append:
  "calls (xs @ ys) e s =
     Option.bind (calls xs e s) (\<lambda>(rs, e1, s1).
       Option.bind (calls ys e1 s1) (\<lambda>(rs', e2, s2). Some (rs @ rs', e2, s2)))"
proof (induction xs arbitrary: e s)
  case Nil
  show ?case by (cases "calls ys e s") auto
next
  case (Cons c xs)
  show ?case
  proof (cases "call c e s")
    case None
    then show ?thesis by simp
  next
    case (Some r)
    obtain b e1 s1 where r: "r = (b, e1, s1)" by (cases r)
    show ?thesis
    proof (cases "calls xs e1 s1")
      case None
      then show ?thesis using Some r by (simp add: Cons.IH)
    next
      case (Some r1)
      obtain rs e2 s2 where r1: "r1 = (rs, e2, s2)" by (cases r1)
      show ?thesis
        using \<open>call c e s = Some r\<close> r Some r1
        by (cases "calls ys e2 s2") (auto simp: Cons.IH)
    qed
  qed
qed

lemma calls_append_Some:
  assumes "calls xs e s = Some (rs, e1, s1)" and "calls ys e1 s1 = Some (rs', e2, s2)"
  shows "calls (xs @ ys) e s = Some (rs @ rs', e2, s2)"
  using assms by (simp add: calls_append)

lemma calls_enqueues:
  assumes "queue_inv s qs fs"
  shows "\<exists>s' ns. calls (map Enqueue vs) e s = Some (replicate (length vs) (True, e), e, s') \<and>
           queue_inv s' (qs @ ns) (drop (length vs) fs) \<and>
           payloads s' (qs @ ns) = payloads s qs @ vs"
  using assms
proof (induction vs arbitrary: s qs fs)
  case Nil
  then show ?case by (intro exI[of _ s] exI[of _ "[]"]) simp
next
  case (Cons v vs)
  obtain s1 n where e1: "enqueue v s = Some (True, s1)"
    and i1: "queue_inv s1 (qs @ [n]) (tl fs)"
    and p1: "payloads s1 (qs @ [n]) = payloads s qs @ [v]"
    using enqueue_inv[OF Cons.prems] by blast
  obtain s' ns where c: "calls (map Enqueue vs) e s1 = Some (replicate (length vs) (True, e), e, s')"
    and i': "queue_inv s' ((qs @ [n]) @ ns) (drop (length vs) (tl fs))"
    and p': "payloads s' ((qs @ [n]) @ ns) = payloads s1 (qs @ [n]) @ vs"
    using Cons.IH[OF i1] by blast
  have "calls (map Enqueue (v # vs)) e s = Some (replicate (length (v # vs)) (True, e), e, s')"
    using e1 c by simp
  moreover have "queue_inv s' (qs @ (n # ns)) (drop (length (v # vs)) fs)"
    using i' by (simp add: drop_Suc)
  moreover have "payloads s' (qs @ (n # ns)) = payloads s qs @ (v # vs)"
    using p' p1 by simp
  ultimately show ?case by blast
qed

lemma calls_dequeues:
  assumes "queue_inv s qs fs"
  shows "\<exists>s' fs'. calls (replicate (length qs) Try_dequeue) e s =
             Some (map (Pair True) (payloads s qs), last (e # payloads s qs), s') \<and>
           queue_inv s' [] fs'"
  using assms
proof (induction qs arbitrary: s fs e)
  case Nil
  then show ?case by (auto simp: payloads_simps)
next
  case (Cons q qs)
  obtain s1 where d: "try_dequeue e s = Some (True, elem (heap s q), s1)"
    and i1: "queue_inv s1 qs (head s # fs)"
    and p1: "payloads s1 qs = payloads s qs"
    using try_dequeue_inv_Cons[OF Cons.prems] by blast
  obtain s' fs' where c: "calls (replicate (length qs) Try_dequeue) (elem (heap s q)) s1 =
      Some (map (Pair True) (payloads s1 qs), last (elem (heap s q) # payloads s1 qs), s')"
    and i': "queue_inv s' [] fs'"
    using Cons.IH[OF i1] by blast
  have "calls (replicate (length (q # qs)) Try_dequeue) e s =
      Some (map (Pair True) (payloads s (q # qs)), last (e # payloads s (q # qs)), s')"
    using d c unfolding p1 by (simp add: payloads_simps)
  then show ?case using i' by blast
qed

lemma calls_MPSC_dequeues:
  assumes "queue_inv s qs fs"
  shows "\<exists>s' fs'. calls (replicate (length qs) MPSC_Try_dequeue) e s =
             Some (map (Pair True) (payloads s qs), last (e # payloads s qs), s') \<and>
           queue_inv s' [] fs'"
  using assms
proof (induction qs arbitrary: s fs e)
  case Nil
  then show ?case by (auto simp: payloads_simps)
next
  case (Cons q qs)
  obtain s1 where d: "MPSC_try_dequeue e s = Some (True, elem (heap s q), s1)"
    and i1: "queue_inv s1 qs (head s # fs)"
    and p1: "payloads s1 qs = payloads s qs"
    using MPSC_try_dequeue_inv_Cons[OF Cons.prems] by blast
  obtain s' fs' where c: "calls (replicate (length qs) MPSC_Try_dequeue) (elem (heap s q)) s1 =
      Some (map (Pair True) (payloads s1 qs), last (elem (heap s q) # payloads s1 qs), s')"
    and i': "queue_inv s' [] fs'"
    using Cons.IH[OF i1] by blast
  have "calls (replicate (length (q # qs)) MPSC_Try_dequeue) e s =
      Some (map (Pair True) (payloads s (q # qs)), last (e # payloads s (q # qs)), s')"
    using d c unfolding p1 by (simp add: payloads_simps)
  then show ?case using i' by blast
qed

text \<open>
  With no other call in between, \<^verbatim>\<open>enqueue(v)\<close> followed by \<^verbatim>\<open>try_dequeue\<close> delivers the
  value at the front of the queue.
\<close>

lemma round_trip_front:
  assumes "queue_inv s qs fs"
  shows "map_option fst (calls [Enqueue v, Try_dequeue] e s) =
           Some [(True, e), (True, hd (payloads s qs @ [v]))]"
proof -
  obtain s1 n where e1: "enqueue v s = Some (True, s1)"
    and i1: "queue_inv s1 (qs @ [n]) (tl fs)"
    and p1: "payloads s1 (qs @ [n]) = payloads s qs @ [v]"
    using enqueue_inv[OF assms] by blast
  obtain q qs' where q: "qs @ [n] = q # qs'" by (cases "qs @ [n]") simp_all
  obtain s2 where d: "try_dequeue e s1 = Some (True, elem (heap s1 q), s2)"
    using try_dequeue_inv_Cons[of s1 q qs' "tl fs" e] i1 q by auto
  have "payloads s qs @ [v] = elem (heap s1 q) # payloads s1 qs'"
    using p1 unfolding q by (simp only: payloads_simps)
  then have "elem (heap s1 q) = hd (payloads s qs @ [v])"
    by (simp only: list.sel)
  then show ?thesis using e1 d by simp
qed

text \<open>
  With no other call in between, both forms of \<^verbatim>\<open>try_dequeue\<close> return false exactly when
  \<^verbatim>\<open>head->next\<close> is null.
\<close>

lemma try_dequeue_alone_false_iff_empty:
  "(refcnt (heap s (head s)) \<noteq> 0 \<longrightarrow>
      (\<exists>e' s'. try_dequeue e s = Some (Block_next (heap s (head s)) \<noteq> None, e', s'))) \<and>
   (\<forall>b e' s'. try_dequeue e s = Some (b, e', s') \<longrightarrow>
      (\<not> b) = (Block_next (heap s (head s)) = None)) \<and>
   (\<exists>e' s'. MPSC_try_dequeue e s = Some (Block_next (heap s (head s)) \<noteq> None, e', s')) \<and>
   (\<exists>s0. MPMCQueue capacity mem = Some s0 \<and> head s0 = tail s0 \<and>
      Block_next (heap s0 (head s0)) = None \<and>
      try_dequeue e s0 = Some (False, e, s0) \<and> MPSC_try_dequeue e s0 = Some (False, e, s0))"
proof (intro conjI impI allI)
  assume "refcnt (heap s (head s)) \<noteq> 0"
  from try_dequeue_eq[OF this, of e]
  show "\<exists>e' s'. try_dequeue e s = Some (Block_next (heap s (head s)) \<noteq> None, e', s')"
    by (cases "Block_next (heap s (head s))") simp_all
next
  fix b e' s'
  assume a: "try_dequeue e s = Some (b, e', s')"
  then have "refcnt (heap s (head s)) \<noteq> 0" by (rule try_dequeue_Some)
  from try_dequeue_eq[OF this, of e] a
  show "(\<not> b) = (Block_next (heap s (head s)) = None)"
    by (cases "Block_next (heap s (head s))") auto
next
  show "\<exists>e' s'. MPSC_try_dequeue e s = Some (Block_next (heap s (head s)) \<noteq> None, e', s')"
    using MPSC_try_dequeue_eq[of e s] by (cases "Block_next (heap s (head s))") simp_all
next
  obtain s0 where c: "MPMCQueue capacity mem = Some s0"
    and i: "queue_inv s0 [] (rev [1..<Suc capacity])"
    using MPMCQueue_inv by blast
  have "head s0 = tail s0" "Block_next (heap s0 (head s0)) = None"
    using i by (simp_all add: queue_inv_def)
  then show "\<exists>s0. MPMCQueue capacity mem = Some s0 \<and> head s0 = tail s0 \<and>
      Block_next (heap s0 (head s0)) = None \<and>
      try_dequeue e s0 = Some (False, e, s0) \<and> MPSC_try_dequeue e s0 = Some (False, e, s0)"
    using c try_dequeue_inv_Nil[OF i] MPSC_try_dequeue_inv_Nil[OF i] by blast
qed

section \<open>The example states\<close>

lemmas run_simps =
  run_def final_def MPMCQueue_def new_Block_def Let_def mem0_def enqueue_def try_enqueue_def
  pop_empty pop_top enqueue_impl_def try_dequeue_eq MPSC_try_dequeue_eq rewind_def

lemma ex_fresh_constructed: "MPMCQueue 0 mem0 = Some ex_fresh"
  by (simp add: MPMCQueue_def new_Block_def Let_def ex_fresh_def mem0_def)

lemma ex_fresh_inv: "queue_inv ex_fresh [] []"
  by (simp add: queue_inv_def ex_fresh_def)

lemma ex_three_reached:
  "final 0 mem0 [Enqueue 10, Enqueue 20, Enqueue 30] 0 = Some ex_three"
  by (auto simp: run_simps ex_three_def fun_eq_iff)

lemma ex_two_reached: "final 0 mem0 [Enqueue 1, Enqueue 2] 0 = Some ex_two"
  by (auto simp: run_simps ex_two_def fun_eq_iff)

lemma ex_two_inv: "queue_inv ex_two [1, 2] []"
  by (simp add: queue_inv_def ex_two_def)

lemma ex_recycled_reached:
  "final 0 mem0 [Enqueue 1, Try_dequeue] 0 = Some ex_recycled"
  by (auto simp: run_simps ex_recycled_def fun_eq_iff)

section \<open>One call alone, step by step\<close>

lemmas solo_simps = solo_def upd_def Let_def eval_nat_numeral











section \<open>Reference counts, step by step\<close>

lemma ex_held_reached: "solo 3 (start Try_dequeue 5) ex_fresh = (TD_load_next 5 0, ex_held)"
  by (simp add: solo_simps ex_fresh_def ex_held_def)

lemma guarded_start: "guarded (start c e)"
  by (cases c) simp_all

lemma guarded_got_block: "guarded (got_block c n)"
  by (cases c) simp_all

lemma guarded_pop_failed: "guarded (pop_failed c)"
  by (cases c) simp_all

lemma guarded_step: "guarded p \<Longrightarrow> guarded (fst (step p s))"
  by (cases p)
     (auto simp: Let_def guarded_got_block guarded_pop_failed new_Block_def
           split: option.splits prod.splits)

text \<open>
  In every state, a step of a call leaves the reference count 0 of an allocated block
  at 0, except for the two stores of \<^verbatim>\<open>release_ref\<close>: the store of 1 and the
  \<^verbatim>\<open>fetch_sub\<close>, which wraps around. The compare-and-exchange of \<^verbatim>\<open>pop\<close> and of
  \<^verbatim>\<open>try_dequeue\<close> never increments a count that is 0.
\<close>

lemma zero_refcnt_step:
  assumes "guarded p" and "refcnt (heap s n) = 0" and "n < fresh s"
  shows "refcnt (heap (snd (step p s)) n) = 0 \<or>
         (\<exists>k. p = Rel_store_refcnt n k \<and> refcnt (heap (snd (step p s)) n) = 1) \<or>
         (\<exists>k. p = Rel_fetch_sub n k \<and> refcnt (heap (snd (step p s)) n) = - 1)"
  using assms
  by (cases p) (auto simp: Let_def upd_def new_Block_def split: option.splits prod.splits)





section \<open>The interleaved executions\<close>

lemmas exec2_simps = fire_def upd_def new_Block_def Let_def ex_two_def mem0_def
  eval_nat_numeral

lemmas exec_simps = fire_def upd_def new_Block_def Let_def ex_fresh_def mem0_def
  eval_nat_numeral

text \<open>
  After \<open>aba_schedule\<close> every call has returned true, and the calls 1 and 2 have both
  delivered the value 1, which was enqueued once. \<^verbatim>\<open>head\<close> is block 1, which is in the
  pool below block 0, and \<^verbatim>\<open>tail\<close> is block 0, the top of the pool.
\<close>

lemma aba_duplicate_delivery:
  "fst (exec aba_schedule (aba_calls, ex_fresh)) =
     [Done True None, Done True (Some 1), Done True (Some 1), Done True None,
      Done True (Some 2)]"
  by (simp add: aba_schedule_def aba_calls_def exec_simps)

lemma aba_final_state:
  "head (snd (exec aba_schedule (aba_calls, ex_fresh))) = 1 \<and>
   tail (snd (exec aba_schedule (aba_calls, ex_fresh))) = 0 \<and>
   blks_top (snd (exec aba_schedule (aba_calls, ex_fresh))) = Some 0 \<and>
   next_links 0 (snd (exec aba_schedule (aba_calls, ex_fresh))) = (Some 1, None) \<and>
   next_links 1 (snd (exec aba_schedule (aba_calls, ex_fresh))) = (None, Some 0)"
  by (simp add: aba_schedule_def aba_calls_def next_links_def exec_simps)

text \<open>
  After the calls 5 and 6 of \<open>underflow_schedule\<close>, \<^verbatim>\<open>head\<close> is block 0 and block 0 is its
  own successor in the queue.
\<close>

lemma self_link_state:
  "head (snd (exec (aba_schedule @ [(5, 10), (6, 12)]) (underflow_calls, ex_fresh))) = 0 \<and>
   next_links 0 (snd (exec (aba_schedule @ [(5, 10), (6, 12)]) (underflow_calls, ex_fresh)))
     = (Some 1, Some 0) \<and>
   refcnt (heap (snd (exec (aba_schedule @ [(5, 10), (6, 12)]) (underflow_calls, ex_fresh))) 0)
     = 1"
  by (simp add: underflow_calls_def aba_schedule_def aba_calls_def next_links_def exec_simps)

section \<open>Properties stated by the specification\<close>

text \<open>
  C1. One thread enqueues the values \<open>vs\<close> into a queue that was just constructed (with
  any capacity, on any memory) and then calls \<^verbatim>\<open>try_dequeue\<close> once more than there are
  values: every \<^verbatim>\<open>enqueue\<close> returns true, the first calls of \<^verbatim>\<open>try_dequeue\<close> return true
  and deliver the values in the order they were enqueued, and the call after the last
  one returns false and leaves the variable as it was.
\<close>

theorem fifo_single_thread:
  "run capacity mem (map Enqueue vs @ replicate (Suc (length vs)) Try_dequeue) e =
     Some (replicate (length vs) (True, e) @ map (Pair True) vs @ [(False, last (e # vs))])"
proof -
  obtain s0 where c: "MPMCQueue capacity mem = Some s0"
    and i0: "queue_inv s0 [] (rev [1..<Suc capacity])"
    using MPMCQueue_inv by blast
  obtain s1 ns where e1: "calls (map Enqueue vs) e s0 = Some (replicate (length vs) (True, e), e, s1)"
    and i1: "queue_inv s1 ([] @ ns) (drop (length vs) (rev [1..<Suc capacity]))"
    and p1: "payloads s1 ([] @ ns) = payloads s0 [] @ vs"
    using calls_enqueues[OF i0] by blast
  have pl: "payloads s1 ns = vs" using p1 by (simp add: payloads_simps)
  have "length (payloads s1 ns) = length ns" by (simp add: payloads_def)
  then have len: "length ns = length vs" using pl by simp
  have i1': "queue_inv s1 ns (drop (length vs) (rev [1..<Suc capacity]))"
    using i1 by (simp only: append_Nil)
  obtain s2 fs2 where d: "calls (replicate (length ns) Try_dequeue) e s1 =
      Some (map (Pair True) (payloads s1 ns), last (e # payloads s1 ns), s2)"
    and i2: "queue_inv s2 [] fs2"
    using calls_dequeues[OF i1', of e] by blast
  define x where "x = last (e # vs)"
  have d': "calls (replicate (length vs) Try_dequeue) e s1 = Some (map (Pair True) vs, x, s2)"
    using d unfolding pl len x_def .
  have l: "calls [Try_dequeue] x s2 = Some ([(False, x)], x, s2)"
    using try_dequeue_inv_Nil[OF i2] by simp
  have "calls (replicate (length vs) Try_dequeue @ [Try_dequeue]) e s1
      = Some (map (Pair True) vs @ [(False, x)], x, s2)"
    by (rule calls_append_Some[OF d' l])
  then have "calls (replicate (Suc (length vs)) Try_dequeue) e s1
      = Some (map (Pair True) vs @ [(False, x)], x, s2)"
    by (simp only: replicate_append_same replicate.simps)
  from calls_append_Some[OF e1 this]
  have "calls (map Enqueue vs @ replicate (Suc (length vs)) Try_dequeue) e s0 =
      Some (replicate (length vs) (True, e) @ map (Pair True) vs @ [(False, x)], x, s2)" .
  then show ?thesis using c by (simp add: run_def x_def)
qed

text \<open>
  C2. Round trip: on a queue with no call in progress and no value queued, in
  particular on a queue that was just constructed, \<^verbatim>\<open>enqueue(v)\<close> followed by
  \<^verbatim>\<open>try_dequeue(&x)\<close> returns true twice and leaves \<open>x = v\<close>, for every value \<open>v\<close>.
\<close>

theorem round_trip:
  "(queue_inv s [] fs \<longrightarrow>
      map_option fst (calls [Enqueue v, Try_dequeue] e s) = Some [(True, e), (True, v)]) \<and>
   run capacity mem [Enqueue v, Try_dequeue] e = Some [(True, e), (True, v)]"
proof (intro conjI impI)
  assume "queue_inv s [] fs"
  from round_trip_front[OF this, of v e]
  show "map_option fst (calls [Enqueue v, Try_dequeue] e s) = Some [(True, e), (True, v)]"
    by (simp add: payloads_simps)
next
  obtain s0 where c: "MPMCQueue capacity mem = Some s0"
    and i: "queue_inv s0 [] (rev [1..<Suc capacity])"
    using MPMCQueue_inv by blast
  from round_trip_front[OF i, of v e] c
  show "run capacity mem [Enqueue v, Try_dequeue] e = Some [(True, e), (True, v)]"
    by (simp add: run_def payloads_simps)
qed

theorem round_trip_witness:
  "queue_inv ex_recycled [] [0] \<and>
   map_option fst (calls [Enqueue 7, Try_dequeue] 0 ex_recycled) = Some [(True, 0), (True, 7)]"
proof -
  have i: "queue_inv ex_recycled [] [0]"
    by (simp add: queue_inv_def ex_recycled_def)
  from round_trip[of ex_recycled "[0]" 7 0] i show ?thesis by blast
qed

text \<open>
  C3, as stated, fails: a block has two successor fields. After \<^verbatim>\<open>enqueue(1)\<close> and
  \<^verbatim>\<open>try_dequeue\<close> on a queue of capacity 0, the former dummy (block 0) is the top of the
  pool; its \<^verbatim>\<open>Node::next\<close>, the successor in the pool, is null, while its \<^verbatim>\<open>Block::next\<close>,
  the successor in the queue, still points to block 1.
\<close>

theorem two_next_fields_counterexample:
  "final 0 mem0 [Enqueue 1, Try_dequeue] 0 = Some ex_recycled \<and>
   blks_top ex_recycled = Some 0 \<and>
   next_links 0 ex_recycled = (None, Some 1) \<and>
   Node_next (heap ex_recycled 0) \<noteq> Block_next (heap ex_recycled 0)"
  using ex_recycled_reached by (simp add: next_links_def ex_recycled_def)

text \<open>
  C3, amended. A block has two \<^verbatim>\<open>next\<close> links, since \<^verbatim>\<open>Block::next\<close> hides
  \<^verbatim>\<open>FreeList::Node::next\<close>. The successor in the pool is \<^verbatim>\<open>Node::next\<close>: \<^verbatim>\<open>release_ref\<close>
  writes it and \<^verbatim>\<open>pop\<close> reads it, and neither changes the \<^verbatim>\<open>Block::next\<close> of any block
  (\<^verbatim>\<open>pop\<close> leaves the whole memory as it was). The successor in the queue is
  \<^verbatim>\<open>Block::next\<close>: \<^verbatim>\<open>_enqueue\<close> and \<^verbatim>\<open>rewind\<close> write it and \<^verbatim>\<open>try_dequeue\<close> reads it, and the
  two writers do not change the \<^verbatim>\<open>Node::next\<close> of any block.
\<close>

theorem two_next_fields:
  "(\<exists>s'. release_ref u s = Some s' \<and>
      (\<forall>n. Block_next (heap s' n) = Block_next (heap s n))) \<and>
   (\<forall>u. blks_top s = Some u \<and> refcnt (heap s u) \<noteq> 0 \<longrightarrow>
      pop s = Some (Some u, s\<lparr>blks_top := Node_next (heap s u)\<rparr>)) \<and>
   (\<forall>r s'. pop s = Some (r, s') \<longrightarrow> heap s' = heap s) \<and>
   (\<forall>n. Node_next (heap (enqueue_impl nblk e s) n) = Node_next (heap s n)) \<and>
   (\<forall>n. Node_next (heap (relink nblk e s) n) = Node_next (heap s n)) \<and>
   (\<forall>nh. refcnt (heap s (head s)) \<noteq> 0 \<and> Block_next (heap s (head s)) = Some nh \<longrightarrow>
      (\<exists>s'. try_dequeue e s = Some (True, elem (heap s nh), s') \<and> head s' = nh))"
proof (intro conjI impI allI)
  show "\<exists>s'. release_ref u s = Some s' \<and>
      (\<forall>n. Block_next (heap s' n) = Block_next (heap s n))"
    by (simp add: release_ref_eq)
next
  fix u
  assume "blks_top s = Some u \<and> refcnt (heap s u) \<noteq> 0"
  then show "pop s = Some (Some u, s\<lparr>blks_top := Node_next (heap s u)\<rparr>)"
    by (simp add: pop_top)
next
  fix r s'
  assume "pop s = Some (r, s')"
  from pop_Some[OF this] show "heap s' = heap s"
    by (cases "blks_top s") auto
next
  fix n
  show "Node_next (heap (enqueue_impl nblk e s) n) = Node_next (heap s n)"
    by (simp add: enqueue_impl_def Let_def)
next
  fix n
  show "Node_next (heap (relink nblk e s) n) = Node_next (heap s n)"
    by (simp add: relink_def Let_def)
next
  fix nh
  assume a: "refcnt (heap s (head s)) \<noteq> 0 \<and> Block_next (heap s (head s)) = Some nh"
  then have "refcnt (heap s (head s)) \<noteq> 0" by simp
  from try_dequeue_eq[OF this, of e] a
  show "\<exists>s'. try_dequeue e s = Some (True, elem (heap s nh), s') \<and> head s' = nh"
    by simp
qed

theorem two_next_fields_witness:
  "blks_top ex_recycled = Some 0 \<and> refcnt (heap ex_recycled 0) \<noteq> 0 \<and>
   pop ex_recycled = Some (Some 0, ex_recycled\<lparr>blks_top := None\<rparr>) \<and>
   refcnt (heap ex_three (head ex_three)) \<noteq> 0 \<and>
   Block_next (heap ex_three (head ex_three)) = Some 1 \<and>
   (\<exists>s'. try_dequeue 0 ex_three = Some (True, 10, s') \<and> head s' = 1)"
proof -
  have a: "blks_top ex_recycled = Some 0 \<and> refcnt (heap ex_recycled 0) \<noteq> 0"
    by (simp add: ex_recycled_def)
  have b: "refcnt (heap ex_three (head ex_three)) \<noteq> 0 \<and>
      Block_next (heap ex_three (head ex_three)) = Some 1"
    by (simp add: ex_three_def)
  have n: "Node_next (heap ex_recycled 0) = None" "elem (heap ex_three 1) = 10"
    by (simp_all add: ex_recycled_def ex_three_def)
  have "pop ex_recycled = Some (Some 0, ex_recycled\<lparr>blks_top := Node_next (heap ex_recycled 0)\<rparr>)"
    using two_next_fields[of 0 ex_recycled 0 0] a by blast
  moreover have "\<exists>s'. try_dequeue 0 ex_three = Some (True, elem (heap ex_three 1), s') \<and> head s' = 1"
    using two_next_fields[of 0 ex_three 0 0] b by blast
  ultimately show ?thesis using a b unfolding n by blast
qed

text \<open>
  C4. The rewind law of the MPSC queue, with no other call in progress: when the
  queue holds a first value \<open>x\<close> followed by the values \<open>payloads s qs\<close>, \<^verbatim>\<open>try_dequeue\<close>
  delivers \<open>x\<close>, \<^verbatim>\<open>rewind(w)\<close> returns true, the next \<^verbatim>\<open>try_dequeue\<close> delivers \<open>w\<close> (so
  \<open>y = x\<close> after \<^verbatim>\<open>rewind(x)\<close>), the following calls deliver the values that were enqueued
  before the rewind and not yet dequeued, in their order, and the call after them
  returns false.
\<close>

theorem rewind_law:
  assumes "queue_inv s (q # qs) fs"
  shows "map_option fst
           (calls ([MPSC_Try_dequeue, Rewind w] @
                   replicate (Suc (length qs)) MPSC_Try_dequeue @ [MPSC_Try_dequeue]) e s) =
         Some ([(True, elem (heap s q)), (True, elem (heap s q)), (True, w)] @
               map (Pair True) (payloads s qs) @ [(False, last (w # payloads s qs))])"
proof -
  define x where "x = elem (heap s q)"
  obtain s1 where d1: "MPSC_try_dequeue e s = Some (True, x, s1)"
    and i1: "queue_inv s1 qs (head s # fs)" and p1: "payloads s1 qs = payloads s qs"
    using MPSC_try_dequeue_inv_Cons[OF assms] unfolding x_def by blast
  obtain s2 where r: "rewind w s1 = Some (True, s2)"
    and i2: "queue_inv s2 (head s1 # qs) (tl (head s # fs))"
    and p2: "payloads s2 (head s1 # qs) = w # payloads s1 qs"
    using rewind_inv[OF i1] by blast
  have c12: "calls [MPSC_Try_dequeue, Rewind w] e s = Some ([(True, x), (True, x)], x, s2)"
    using d1 r by simp
  obtain s3 fs3 where d3: "calls (replicate (length (head s1 # qs)) MPSC_Try_dequeue) x s2 =
      Some (map (Pair True) (payloads s2 (head s1 # qs)),
            last (x # payloads s2 (head s1 # qs)), s3)"
    and i3: "queue_inv s3 [] fs3"
    using calls_MPSC_dequeues[OF i2] by blast
  define y where "y = last (w # payloads s qs)"
  have d3': "calls (replicate (Suc (length qs)) MPSC_Try_dequeue) x s2 =
      Some ((True, w) # map (Pair True) (payloads s qs), y, s3)"
    using d3 unfolding p2 p1 y_def by simp
  have l: "calls [MPSC_Try_dequeue] y s3 = Some ([(False, y)], y, s3)"
    using MPSC_try_dequeue_inv_Nil[OF i3] by simp
  note calls_append_Some[OF c12 calls_append_Some[OF d3' l]]
  then show ?thesis unfolding x_def y_def by simp
qed

theorem rewind_law_witness:
  "queue_inv ex_three [1, 2, 3] [] \<and>
   map_option fst
     (calls [MPSC_Try_dequeue, Rewind 99, MPSC_Try_dequeue, MPSC_Try_dequeue,
             MPSC_Try_dequeue, MPSC_Try_dequeue] 0 ex_three) =
   Some [(True, 10), (True, 10), (True, 99), (True, 20), (True, 30), (False, 30)]"
proof -
  have i: "queue_inv ex_three [1, 2, 3] []"
    by (simp add: queue_inv_def ex_three_def)
  from rewind_law[OF i, of 99 0] i show ?thesis
    by (simp add: payloads_simps ex_three_def numeral_2_eq_2)
qed

text \<open>
  C5. The code does not keep the claim. On the queue that holds 1 and 2, with the calls
  and the schedule of \<open>stale_calls\<close> and \<open>stale_schedule\<close>, \<^verbatim>\<open>head->next\<close> is not null in any
  state of the execution (it is block 1, then block 2), both other calls have returned
  before call 0 takes its reference, and call 0, a \<^verbatim>\<open>try_dequeue\<close>, returns false: the
  \<^verbatim>\<open>next\<close> it has read is the one of block 0, which was the head when the call loaded
  \<^verbatim>\<open>head\<close> and is the tail when the call reads it. The queue then holds 2 and 3.
\<close>

theorem try_dequeue_false_on_nonempty_queue:
  "head_next ex_two = Some 1 \<and>
   set (map head_next (trace stale_schedule (stale_calls, ex_two))) = {Some 1, Some 2} \<and>
   fst (exec [(0, 1), (1, 12), (2, 10)] (stale_calls, ex_two)) =
     [TD_load_refcnt 0 0, Done True (Some 1), Done True None] \<and>
   fst (exec stale_schedule (stale_calls, ex_two)) =
     [Done False (Some 0), Done True (Some 1), Done True None] \<and>
   head (snd (exec stale_schedule (stale_calls, ex_two))) = 1 \<and>
   next_links 1 (snd (exec stale_schedule (stale_calls, ex_two))) = (None, Some 2) \<and>
   next_links 2 (snd (exec stale_schedule (stale_calls, ex_two))) = (None, Some 0) \<and>
   next_links 0 (snd (exec stale_schedule (stale_calls, ex_two))) = (None, None)"
  by (simp add: stale_schedule_def stale_calls_def head_next_def next_links_def exec2_simps)

text \<open>
  C6. \<^verbatim>\<open>try_enqueue\<close> returns false exactly when the pool is empty (\<^verbatim>\<open>top\<close> is null), and
  then the state is as before; when the pool has a block it returns true and links
  that block at the tail. \<^verbatim>\<open>enqueue\<close> never returns false: on an empty pool it allocates
  a new block, and in every quiescent state it returns true and the queue holds the
  value as its last element.
\<close>

theorem pool_exhaustion:
  "(blks_top s = None \<longrightarrow> try_enqueue v s = Some (False, s)) \<and>
   (\<forall>b s'. try_enqueue v s = Some (b, s') \<longrightarrow> (\<not> b) = (blks_top s = None)) \<and>
   (\<forall>u. blks_top s = Some u \<and> refcnt (heap s u) \<noteq> 0 \<longrightarrow>
      try_enqueue v s =
        Some (True, enqueue_impl u v (s\<lparr>blks_top := Node_next (heap s u)\<rparr>))) \<and>
   (\<forall>qs fs. queue_inv s qs fs \<longrightarrow>
      (\<exists>s'. try_enqueue v s = Some (fs \<noteq> [], s') \<and>
         (case fs of
            [] \<Rightarrow> s' = s
          | f # fs' \<Rightarrow> queue_inv s' (qs @ [f]) fs' \<and>
              payloads s' (qs @ [f]) = payloads s qs @ [v]))) \<and>
   (\<forall>b s'. enqueue v s = Some (b, s') \<longrightarrow> b) \<and>
   (blks_top s = None \<longrightarrow>
      enqueue v s = Some (True, enqueue_impl (fresh s) v (snd (new_Block s)))) \<and>
   (\<forall>qs fs. queue_inv s qs fs \<longrightarrow>
      (\<exists>s' n. enqueue v s = Some (True, s') \<and> queue_inv s' (qs @ [n]) (tl fs) \<and>
         payloads s' (qs @ [n]) = payloads s qs @ [v]))"
proof (intro conjI impI allI)
  assume "blks_top s = None"
  then show "try_enqueue v s = Some (False, s)" by (simp add: try_enqueue_def pop_empty)
next
  fix b s'
  assume a: "try_enqueue v s = Some (b, s')"
  then obtain r where p: "pop s = Some r" by (cases "pop s") (simp_all add: try_enqueue_def)
  from pop_Some[OF p] a p show "(\<not> b) = (blks_top s = None)"
    by (cases "blks_top s") (auto simp: try_enqueue_def)
next
  fix u
  assume "blks_top s = Some u \<and> refcnt (heap s u) \<noteq> 0"
  then show "try_enqueue v s =
      Some (True, enqueue_impl u v (s\<lparr>blks_top := Node_next (heap s u)\<rparr>))"
    by (simp add: try_enqueue_def pop_top)
next
  fix qs fs
  assume "queue_inv s qs fs"
  then show "\<exists>s'. try_enqueue v s = Some (fs \<noteq> [], s') \<and>
         (case fs of
            [] \<Rightarrow> s' = s
          | f # fs' \<Rightarrow> queue_inv s' (qs @ [f]) fs' \<and>
              payloads s' (qs @ [f]) = payloads s qs @ [v])"
    by (rule try_enqueue_inv)
next
  fix b s'
  assume "enqueue v s = Some (b, s')"
  then show b
    by (cases "pop s") (auto simp: enqueue_def split: prod.splits option.splits)
next
  assume "blks_top s = None"
  then show "enqueue v s = Some (True, enqueue_impl (fresh s) v (snd (new_Block s)))"
    by (simp add: enqueue_def pop_empty new_Block_def)
next
  fix qs fs
  assume "queue_inv s qs fs"
  then show "\<exists>s' n. enqueue v s = Some (True, s') \<and> queue_inv s' (qs @ [n]) (tl fs) \<and>
         payloads s' (qs @ [n]) = payloads s qs @ [v]"
    by (rule enqueue_inv)
qed

theorem pool_exhaustion_witness:
  "blks_top ex_fresh = None \<and> queue_inv ex_fresh [] [] \<and>
   try_enqueue 7 ex_fresh = Some (False, ex_fresh) \<and>
   (\<exists>s' n. enqueue 7 ex_fresh = Some (True, s') \<and> payloads s' [n] = [7])"
proof -
  have t: "blks_top ex_fresh = None" by (simp add: ex_fresh_def)
  note p = pool_exhaustion[of ex_fresh 7]
  have 1: "try_enqueue 7 ex_fresh = Some (False, ex_fresh)"
    using p t by blast
  have "\<exists>s' n. enqueue 7 ex_fresh = Some (True, s') \<and> queue_inv s' ([] @ [n]) (tl []) \<and>
         payloads s' ([] @ [n]) = payloads ex_fresh [] @ [7]"
    using p ex_fresh_inv by blast
  then have 2: "\<exists>s' n. enqueue 7 ex_fresh = Some (True, s') \<and> payloads s' [n] = [7]"
    by (auto simp: payloads_simps)
  show ?thesis using t ex_fresh_inv 1 2 by blast
qed

text \<open>
  C7. \<^verbatim>\<open>release_ref(u)\<close> decrements the reference count of \<open>u\<close>. When the count was 1, it
  pushes \<open>u\<close>: after three atomic steps the current top is stored in the \<^verbatim>\<open>next\<close> of \<open>u\<close> and
  the compare-and-exchange on \<^verbatim>\<open>top\<close> is still to come; the fourth step makes \<open>u\<close> the
  top; the fifth resets the count to 1. So \<open>u\<close> is the top with count 1 and its \<^verbatim>\<open>next\<close> is
  the previous top. When the count was not 1, the call returns after the decrement and
  nothing else has changed. \<^verbatim>\<open>push\<close> does the same and returns true.
\<close>

theorem release_ref_pushes_last_reference:
  "release_ref u s =
     Some (if refcnt (heap s u) = 1
           then s\<lparr>blks_top := Some u,
                  heap := (heap s)(u := (heap s u)\<lparr>Node_next := blks_top s, refcnt := 1\<rparr>)\<rparr>
           else s\<lparr>heap := (heap s)(u := (heap s u)\<lparr>refcnt := refcnt (heap s u) - 1\<rparr>)\<rparr>) \<and>
   push u s =
     Some (True,
           if refcnt (heap s u) = 1
           then s\<lparr>blks_top := Some u,
                  heap := (heap s)(u := (heap s u)\<lparr>Node_next := blks_top s, refcnt := 1\<rparr>)\<rparr>
           else s\<lparr>heap := (heap s)(u := (heap s u)\<lparr>refcnt := refcnt (heap s u) - 1\<rparr>)\<rparr>) \<and>
   (refcnt (heap s u) = 1 \<longrightarrow>
      solo 3 (Rel_fetch_sub u k) s =
        (Rel_cas_top u (blks_top s) k,
         s\<lparr>heap := (heap s)(u := (heap s u)\<lparr>refcnt := 0, Node_next := blks_top s\<rparr>)\<rparr>) \<and>
      solo 4 (Rel_fetch_sub u k) s =
        (Rel_store_refcnt u k,
         s\<lparr>heap := (heap s)(u := (heap s u)\<lparr>refcnt := 0, Node_next := blks_top s\<rparr>),
           blks_top := Some u\<rparr>) \<and>
      solo 5 (Rel_fetch_sub u k) s =
        (k, s\<lparr>blks_top := Some u,
              heap := (heap s)(u := (heap s u)\<lparr>Node_next := blks_top s, refcnt := 1\<rparr>)\<rparr>)) \<and>
   (refcnt (heap s u) \<noteq> 1 \<longrightarrow>
      solo 1 (Rel_fetch_sub u k) s =
        (k, s\<lparr>heap := (heap s)(u := (heap s u)\<lparr>refcnt := refcnt (heap s u) - 1\<rparr>)\<rparr>))"
  by (simp add: push_def release_ref_eq solo_simps)

theorem release_ref_pushes_last_reference_witness:
  "refcnt (heap ex_recycled 1) = 1 \<and>
   solo 5 (Rel_fetch_sub 1 (Done True None)) ex_recycled =
     (Done True None,
      ex_recycled\<lparr>blks_top := Some 1,
        heap := (heap ex_recycled)(1 := (heap ex_recycled 1)\<lparr>Node_next := Some 0, refcnt := 1\<rparr>)\<rparr>) \<and>
   refcnt (heap ex_held 0) \<noteq> 1 \<and>
   solo 1 (Rel_fetch_sub 0 (Done False (Some 5))) ex_held = (Done False (Some 5), ex_fresh)"
proof -
  have a: "refcnt (heap ex_recycled 1) = 1" "blks_top ex_recycled = Some 0"
    by (simp_all add: ex_recycled_def)
  have b: "refcnt (heap ex_held 0) \<noteq> 1" by (simp add: ex_held_def)
  have c: "ex_held\<lparr>heap := (heap ex_held)(0 := (heap ex_held 0)\<lparr>refcnt := refcnt (heap ex_held 0) - 1\<rparr>)\<rparr>
      = ex_fresh"
    by (simp add: ex_held_def ex_fresh_def)
  from release_ref_pushes_last_reference[of 1 ex_recycled "Done True None"] a
  have 1: "solo 5 (Rel_fetch_sub 1 (Done True None)) ex_recycled =
     (Done True None,
      ex_recycled\<lparr>blks_top := Some 1,
        heap := (heap ex_recycled)(1 := (heap ex_recycled 1)\<lparr>Node_next := Some 0, refcnt := 1\<rparr>)\<rparr>)"
    by simp
  from release_ref_pushes_last_reference[of 0 ex_held "Done False (Some 5)"] b
  have 2: "solo 1 (Rel_fetch_sub 0 (Done False (Some 5))) ex_held = (Done False (Some 5), ex_fresh)"
    unfolding c by simp
  show ?thesis using a(1) 1 b 2 by simp
qed

text \<open>
  C8. The code does not keep the claim. After \<open>underflow_schedule\<close>, an execution of
  \<^verbatim>\<open>enqueue\<close> and \<^verbatim>\<open>try_dequeue\<close> calls on a queue of capacity 0, the reference count of
  block 0 is 0 and the next step of call 8, a \<^verbatim>\<open>try_dequeue\<close>, is the \<^verbatim>\<open>fetch_sub\<close> of its
  \<^verbatim>\<open>push\<close> on block 0: the step takes the count from 0 to \<open>2^64 - 1\<close>, a transition out of
  0 that is not the store of 1.
\<close>

theorem refcnt_leaves_zero_by_decrement:
  "fst (exec underflow_schedule (underflow_calls, ex_fresh)) ! 8 =
     Rel_fetch_sub 0 (Done True (Some 3)) \<and>
   refcnt (heap (snd (exec underflow_schedule (underflow_calls, ex_fresh))) 0) = 0 \<and>
   refcnt (heap (snd (fire 8 (exec underflow_schedule (underflow_calls, ex_fresh)))) 0) = - 1"
  by (simp add: underflow_schedule_def underflow_calls_def aba_schedule_def aba_calls_def
        exec_simps)







end
